theory Spec2Isabelle
  imports Complex_Main "HOL-Library.Log_Nat"
begin

section \<open>Python values: errors, numbers, floats\<close>

text \<open>
  The exceptions the modelled code can raise. Only \<open>ValueError\<close> carries its message: the
  two \<open>raise\<close> statements of \<open>DBDataset.split\<close> and the builtin \<open>int\<close> are told apart by it.
\<close>

datatype error =
    ValueError string
  | ZeroDivisionError
  | OverflowError
  | IndexError

text \<open>
  A Python \<open>for\<close> loop over a list whose body may raise: the state is threaded through the
  body, the first exception ends the loop.
\<close>

fun for_loop :: "('a \<Rightarrow> 's \<Rightarrow> error + 's) \<Rightarrow> 'a list \<Rightarrow> 's \<Rightarrow> error + 's" where
  "for_loop body [] s = Inr s"
| "for_loop body (x # xs) s =
     (case body x s of Inl e \<Rightarrow> Inl e | Inr s' \<Rightarrow> for_loop body xs s')"

text \<open>
  A list comprehension \<open>[f(x) for x in xs]\<close> whose element expression may raise: elements are
  evaluated from left to right, the first exception wins.
\<close>

fun comprehension :: "('a \<Rightarrow> error + 'b) \<Rightarrow> 'a list \<Rightarrow> error + 'b list" where
  "comprehension f [] = Inr []"
| "comprehension f (x # xs) =
     (case f x of Inl e \<Rightarrow> Inl e
      | Inr y \<Rightarrow> (case comprehension f xs of Inl e \<Rightarrow> Inl e | Inr ys \<Rightarrow> Inr (y # ys)))"

subsection \<open>IEEE double precision, as far as the code uses it\<close>

text \<open>
  A Python float is a binary64 value: a finite value (a rational with a 53 bit significand
  and an exponent in range), an infinity or NaN. The two zeros are one value here: the
  code never looks at the sign of a zero (dividing by either zero raises).

  \<open>round_double\<close> rounds a rational to the nearest double, ties to the even significand,
  with gradual underflow below \<open>2 powi (-1022)\<close> and overflow to an infinity from
  \<open>2 ^ 1024 - 2 ^ 970\<close> on.
\<close>

datatype pyfloat = Fin rat | PInf | NInf | NaN

definition ilog2 :: "rat \<Rightarrow> int" where
  \<comment> \<open>for \<open>a > 0\<close>: the exponent \<open>e\<close> with \<open>2 powi e \<le> a < 2 powi (e + 1)\<close>\<close>
  "ilog2 a =
     (let e = bitlen (fst (quotient_of a)) - bitlen (snd (quotient_of a))
      in if a < 2 powi e then e - 1 else e)"

definition round_double :: "rat \<Rightarrow> pyfloat" where
  "round_double x =
     (if x = 0 then Fin 0
      else
        let a = \<bar>x\<bar>;
            u = max (ilog2 a - 52) (- 1074);
            m = a / 2 powi u;
            q = \<lfloor>m\<rfloor>;
            r = m - of_int q;
            q' = (if 1 / 2 < r \<or> (r = 1 / 2 \<and> odd q) then q + 1 else q);
            y = of_int q' * 2 powi u
        in if 2 ^ 1024 \<le> y then (if 0 < x then PInf else NInf)
           else Fin (sgn x * y))"

fun fadd :: "pyfloat \<Rightarrow> pyfloat \<Rightarrow> pyfloat" where
  "fadd NaN y = NaN"
| "fadd x NaN = NaN"
| "fadd PInf NInf = NaN"
| "fadd NInf PInf = NaN"
| "fadd PInf y = PInf"
| "fadd x PInf = PInf"
| "fadd NInf y = NInf"
| "fadd x NInf = NInf"
| "fadd (Fin a) (Fin b) = round_double (a + b)"

fun fmul :: "pyfloat \<Rightarrow> pyfloat \<Rightarrow> pyfloat" where
  "fmul NaN y = NaN"
| "fmul x NaN = NaN"
| "fmul (Fin a) (Fin b) = round_double (a * b)"
| "fmul (Fin a) PInf = (if a = 0 then NaN else if 0 < a then PInf else NInf)"
| "fmul (Fin a) NInf = (if a = 0 then NaN else if 0 < a then NInf else PInf)"
| "fmul PInf (Fin b) = (if b = 0 then NaN else if 0 < b then PInf else NInf)"
| "fmul NInf (Fin b) = (if b = 0 then NaN else if 0 < b then NInf else PInf)"
| "fmul PInf PInf = PInf"
| "fmul NInf NInf = PInf"
| "fmul PInf NInf = NInf"
| "fmul NInf PInf = NInf"

text \<open>\<open>x / y\<close> on floats: Python raises on a zero divisor, everything else is IEEE.\<close>

fun float_truediv :: "pyfloat \<Rightarrow> pyfloat \<Rightarrow> error + pyfloat" where
  "float_truediv x (Fin b) =
     (if b = 0 then Inl ZeroDivisionError
      else case x of
        Fin a \<Rightarrow> Inr (round_double (a / b))
      | PInf \<Rightarrow> Inr (if 0 < b then PInf else NInf)
      | NInf \<Rightarrow> Inr (if 0 < b then NInf else PInf)
      | NaN \<Rightarrow> Inr NaN)"
| "float_truediv (Fin a) y = Inr (case y of NaN \<Rightarrow> NaN | _ \<Rightarrow> Fin 0)"
| "float_truediv x y = Inr NaN"

text \<open>
  \<open>float(n)\<close> as Python applies it to the int operand of a mixed operation, and \<open>a / b\<close> on
  two ints: both are correctly rounded and raise OverflowError instead of returning an
  infinity.
\<close>

definition float_of_int :: "int \<Rightarrow> error + pyfloat" where
  "float_of_int n =
     (case round_double (of_int n) of Fin y \<Rightarrow> Inr (Fin y) | _ \<Rightarrow> Inl OverflowError)"

definition int_truediv :: "int \<Rightarrow> int \<Rightarrow> error + pyfloat" where
  "int_truediv a b =
     (if b = 0 then Inl ZeroDivisionError
      else case round_double (of_int a / of_int b) of
        Fin y \<Rightarrow> Inr (Fin y)
      | _ \<Rightarrow> Inl OverflowError)"

text \<open>\<open>int(x)\<close> truncates towards zero, \<open>math.floor(x)\<close> rounds down; neither accepts NaN or
  an infinity.\<close>

definition nan_message :: string where
  "nan_message = ''cannot convert float NaN to integer''"

fun int_of_float :: "pyfloat \<Rightarrow> error + int" where
  "int_of_float (Fin a) = Inr (if 0 \<le> a then \<lfloor>a\<rfloor> else \<lceil>a\<rceil>)"
| "int_of_float NaN = Inl (ValueError nan_message)"
| "int_of_float x = Inl OverflowError"

fun math_floor :: "pyfloat \<Rightarrow> error + int" where
  "math_floor (Fin a) = Inr \<lfloor>a\<rfloor>"
| "math_floor NaN = Inl (ValueError nan_message)"
| "math_floor x = Inl OverflowError"

subsection \<open>Numbers: ints and floats in one expression\<close>

text \<open>
  A number is an unbounded int or a float. Two ints are added, subtracted and multiplied
  as ints. As soon as one operand is a float the other one is converted with \<open>float\<close>,
  which raises OverflowError on an int beyond the doubles, and the operation is the one
  on doubles. \<open>/\<close> returns a float in every case; on two ints it is \<open>int_truediv\<close>.
\<close>

datatype pynum = PyInt int | PyFloat pyfloat

fun float_of_num :: "pynum \<Rightarrow> error + pyfloat" where
  "float_of_num (PyInt n) = float_of_int n"
| "float_of_num (PyFloat x) = Inr x"

definition float_op :: "(pyfloat \<Rightarrow> pyfloat \<Rightarrow> pyfloat) \<Rightarrow> pynum \<Rightarrow> pynum \<Rightarrow> error + pynum" where
  "float_op f a b =
     (case float_of_num a of
        Inl e \<Rightarrow> Inl e
      | Inr x \<Rightarrow> (case float_of_num b of Inl e \<Rightarrow> Inl e | Inr y \<Rightarrow> Inr (PyFloat (f x y))))"

fun fneg :: "pyfloat \<Rightarrow> pyfloat" where
  "fneg (Fin a) = Fin (- a)"
| "fneg PInf = NInf"
| "fneg NInf = PInf"
| "fneg NaN = NaN"

definition fsub :: "pyfloat \<Rightarrow> pyfloat \<Rightarrow> pyfloat" where
  "fsub x y = fadd x (fneg y)"

fun num_add :: "pynum \<Rightarrow> pynum \<Rightarrow> error + pynum" where
  "num_add (PyInt a) (PyInt b) = Inr (PyInt (a + b))"
| "num_add a b = float_op fadd a b"

fun num_sub :: "pynum \<Rightarrow> pynum \<Rightarrow> error + pynum" where
  "num_sub (PyInt a) (PyInt b) = Inr (PyInt (a - b))"
| "num_sub a b = float_op fsub a b"

fun num_mul :: "pynum \<Rightarrow> pynum \<Rightarrow> error + pynum" where
  "num_mul (PyInt a) (PyInt b) = Inr (PyInt (a * b))"
| "num_mul a b = float_op fmul a b"

fun num_truediv :: "pynum \<Rightarrow> pynum \<Rightarrow> error + pyfloat" where
  "num_truediv (PyInt a) (PyInt b) = int_truediv a b"
| "num_truediv a b =
     (case float_of_num a of
        Inl e \<Rightarrow> Inl e
      | Inr x \<Rightarrow> (case float_of_num b of Inl e \<Rightarrow> Inl e | Inr y \<Rightarrow> float_truediv x y))"

text \<open>
  \<open>b ** e\<close> on two ints. With \<open>e \<ge> 0\<close> it is the int \<open>b ^ e\<close>. With \<open>e < 0\<close> Python hands
  both operands to the power of floats: they are converted with \<open>float\<close>, a zero base
  raises ZeroDivisionError, and the result is the float that the C library's \<open>pow\<close>
  returns for \<open>float(b)\<close> and \<open>float(e)\<close>. \<open>pow\<close> is taken to round correctly, as the other
  operations on doubles do; since \<open>1 \<le> \<bar>float(b)\<bar>\<close> and \<open>float(e) < 0\<close> the power is at most
  \<open>1\<close> in absolute value, and one too small for the doubles becomes \<open>0.0\<close>.
\<close>

definition py_pow :: "int \<Rightarrow> int \<Rightarrow> error + pynum" where
  "py_pow b e =
     (if 0 \<le> e then Inr (PyInt (b ^ nat e))
      else case (round_double (of_int b), round_double (of_int e)) of
        (Fin x, Fin y) \<Rightarrow>
          \<comment> \<open>\<open>y\<close> is a whole number, \<open>\<lfloor>y\<rfloor>\<close> is \<open>y\<close> as an int\<close>
          if x = 0 then Inl ZeroDivisionError
          else Inr (PyFloat (round_double (x powi \<lfloor>y\<rfloor>)))
      | _ \<Rightarrow> Inl OverflowError)"

section \<open>mimikit/networks/wavenet.py\<close>

subsection \<open>WaveNetLayer\<close>

text \<open>
  The integer hyperparameters of a layer. The channel sizes (\<open>gate_dim\<close>,
  \<open>residuals_dim\<close>, \<open>skip_dim\<close>, \<open>cin_dim\<close>, \<open>gin_dim\<close>), \<open>groups\<close> and \<open>bias\<close> only
  parametrise the tensor modules and take no part in the arithmetic below.
\<close>

record WaveNetLayer =
  layer_i :: int
  kernel_size :: int
  pad_input :: int
  accum_outputs :: int
  stride :: int

definition dilation :: "WaveNetLayer \<Rightarrow> error + pynum" where
  "dilation self = py_pow (kernel_size self) (layer_i self)"

definition shift_diff :: "WaveNetLayer \<Rightarrow> error + pynum" where
  "shift_diff self =
     (if pad_input self = 0
      then (case dilation self of
              Inl e \<Rightarrow> Inl e
            | Inr d \<Rightarrow> num_mul (PyInt (kernel_size self - 1)) d)
      else Inr (PyInt 0))"

definition input_padding :: "WaveNetLayer \<Rightarrow> error + pynum" where
  "input_padding self =
     (if pad_input self \<noteq> 0
      then (case dilation self of
              Inl e \<Rightarrow> Inl e
            | Inr d \<Rightarrow> num_mul (PyInt (pad_input self * (kernel_size self - 1))) d)
      else Inr (PyInt 0))"

definition output_padding :: "WaveNetLayer \<Rightarrow> error + pynum" where
  "output_padding self =
     (case shift_diff self of
        Inl e \<Rightarrow> Inl e
      | Inr s \<Rightarrow> num_mul (PyInt (- accum_outputs self)) s)"

definition receptive_field :: "WaveNetLayer \<Rightarrow> error + pynum" where
  "receptive_field self =
     (case dilation self of Inl e \<Rightarrow> Inl e | Inr d \<Rightarrow> num_mul (PyInt (kernel_size self)) d)"

text \<open>
  \<open>output_length\<close> is called with an int. Its \<open>numerator\<close> is
  \<open>input_length - self.dilation * (self.kernel_size - 1) - 1\<close>, an int when the dilation is
  one; the quotient by the stride is a float in every case, and so is \<open>1\<close> plus it.
\<close>

definition output_length :: "WaveNetLayer \<Rightarrow> int \<Rightarrow> error + int" where
  "output_length self input_length =
     (if pad_input self \<noteq> 0 then Inr input_length
      else case dilation self of
        Inl e \<Rightarrow> Inl e
      | Inr d \<Rightarrow>
          (case num_mul d (PyInt (kernel_size self - 1)) of
             Inl e \<Rightarrow> Inl e
           | Inr p \<Rightarrow>
               (case num_sub (PyInt input_length) p of
                  Inl e \<Rightarrow> Inl e
                | Inr q \<Rightarrow>
                    (case num_sub q (PyInt 1) of
                       Inl e \<Rightarrow> Inl e
                     | Inr numerator \<Rightarrow>
                         (case num_truediv numerator (PyInt (stride self)) of
                            Inl e \<Rightarrow> Inl e
                          | Inr x \<Rightarrow> math_floor (fadd (Fin 1) x))))))"

subsection \<open>WNNetwork\<close>

text \<open>
  Of the network's fields, those that reach the layers' arithmetic; they carry the prefix
  \<open>net_\<close> to keep them apart from the layer's fields of the same name. \<open>layers_of\<close> (the
  source's \<open>layers_\<close>) builds one layer for every \<open>i\<close> in \<open>range(block)\<close>, block after
  block; \<open>stride\<close> keeps the layer's default 1.
\<close>

record WNNetwork =
  n_layers :: "int list"
  net_kernel_size :: int
  net_accum_outputs :: int
  net_pad_input :: int

definition py_range :: "int \<Rightarrow> int list" where
  "py_range n = map int [0..<nat n]"

definition new_layer :: "WNNetwork \<Rightarrow> int \<Rightarrow> WaveNetLayer" where
  \<comment> \<open>the constructor call in \<open>layers_\<close>\<close>
  "new_layer self i =
     \<lparr>layer_i = i,
      kernel_size = net_kernel_size self,
      pad_input = net_pad_input self,
      accum_outputs = net_accum_outputs self,
      stride = 1\<rparr>"

definition layers_of :: "WNNetwork \<Rightarrow> WaveNetLayer list" where
  "layers_of self = concat (map (\<lambda>block. map (new_layer self) (py_range block)) (n_layers self))"

text \<open>The body of the receptive-field loop of \<open>__post_init__\<close>, at index \<open>i\<close>.\<close>

definition rf_step :: "WaveNetLayer list \<Rightarrow> nat \<times> WaveNetLayer \<Rightarrow> pynum \<Rightarrow> error + pynum" where
  "rf_step layers = (\<lambda>(i, layer) rf.
     if int i = int (length layers) - 1
     then (case receptive_field layer of Inl e \<Rightarrow> Inl e | Inr r \<Rightarrow> num_add rf r)
     else if layer_i (layers ! (i + 1)) = 0
     then (case receptive_field layer of
             Inl e \<Rightarrow> Inl e
           | Inr r \<Rightarrow> (case num_sub r (PyInt 1) of Inl e \<Rightarrow> Inl e | Inr r' \<Rightarrow> num_add rf r'))
     else Inr rf)"

definition receptive_field_loop :: "WaveNetLayer list \<Rightarrow> error + pynum" where
  "receptive_field_loop layers = for_loop (rf_step layers) (enumerate 0 layers) (PyInt 0)"

definition shift_sum :: "WaveNetLayer list \<Rightarrow> error + pynum" where
  \<comment> \<open>\<open>sum(layer.shift_diff for layer in self.layers)\<close>: from the int 0, one addition after
      the other from the left (on floats an interpreter that compensates the rounding
      errors of the additions may differ in the last bit; the layers a network builds
      have int shifts)\<close>
  "shift_sum layers =
     for_loop (\<lambda>layer acc. case shift_diff layer of Inl e \<Rightarrow> Inl e | Inr s \<Rightarrow> num_add acc s)
       layers (PyInt 0)"

text \<open>\<open>__post_init__\<close>: the pair \<open>(self.receptive_field, self.shift)\<close> it stores.\<close>

definition post_init :: "WNNetwork \<Rightarrow> error + pynum \<times> pynum" where
  "post_init self =
     (case receptive_field_loop (layers_of self) of
        Inl e \<Rightarrow> Inl e
      | Inr rf \<Rightarrow>
          if net_pad_input self = 1 then Inr (rf, PyInt 1)
          else if net_pad_input self = - 1 then Inr (rf, rf)
          else (case shift_sum (layers_of self) of
                  Inl e \<Rightarrow> Inl e
                | Inr s \<Rightarrow>
                    (case num_add s (PyInt 1) of Inl e \<Rightarrow> Inl e | Inr sh \<Rightarrow> Inr (rf, sh))))"

definition all_output_lengths :: "WNNetwork \<Rightarrow> int \<Rightarrow> error + int list" where
  "all_output_lengths self input_length =
     (case for_loop (\<lambda>layer (out_length, lengths).
               case output_length layer out_length of
                 Inl e \<Rightarrow> Inl e
               | Inr out \<Rightarrow> Inr (out, lengths @ [out]))
             (layers_of self) (input_length, [])
      of Inl e \<Rightarrow> Inl e | Inr (out_length, lengths) \<Rightarrow> Inr lengths)"

section \<open>mmk/freqnet/freqnet.py\<close>

text \<open>
  \<open>FreqLayer\<close> is defined in \<open>freq_layer.py\<close>, which is not among the sources at hand.
  \<open>FreqNet.receptive_field\<close> reads two things of a layer: its \<open>layer_index\<close> and what its
  \<open>receptive_field()\<close> returns. Both are fields here.
\<close>

record FreqLayer =
  layer_index :: int
  layer_receptive_field :: int

definition block_rf :: "FreqLayer list \<Rightarrow> int list" where
  \<comment> \<open>the list the loop over \<open>enumerate(self.layers[:-1])\<close> builds\<close>
  "block_rf layers =
     concat (map (\<lambda>(i, layer).
         if layer_index (layers ! (i + 1)) = 0 then [layer_receptive_field layer - 1] else [])
       (enumerate 0 (butlast layers)))"

definition FreqNet_receptive_field :: "FreqLayer list \<Rightarrow> error + int" where
  \<comment> \<open>\<open>self.layers[-1]\<close> raises IndexError on an empty list\<close>
  "FreqNet_receptive_field layers =
     (if layers = [] then Inl IndexError
      else Inr (sum_list (block_rf layers @ [layer_receptive_field (last layers)])))"

section \<open>mimikit/kit/db_dataset.py\<close>

subsection \<open>DBDataset.split\<close>

text \<open>
  An entry of \<open>splits\<close> is a float, an int or \<open>None\<close>. \<open>len(self)\<close> is the parameter \<open>N\<close>;
  \<open>random_split\<close> belongs to the tensor library and is a parameter as well: it takes the
  lengths and returns the subsets or raises.
\<close>

fun is_float :: "pynum \<Rightarrow> bool" where
  "is_float (PyFloat x) = True"
| "is_float (PyInt n) = False"

text \<open>The float in an entry; it is only applied to entries that are floats.\<close>

fun the_float :: "pynum \<Rightarrow> pyfloat" where
  "the_float (PyFloat x) = x"
| "the_float (PyInt n) = Fin (of_int n)"

definition float_sum :: "pyfloat list \<Rightarrow> pyfloat" where
  \<comment> \<open>\<open>sum(splits)\<close> on floats: the start value is the int 0, then one double addition after
      the other from the left (an interpreter that compensates the rounding errors of the
      additions may differ in the last bit; nothing below depends on the bits of the sum)\<close>
  "float_sum xs = foldl fadd (Fin 0) xs"

definition normalized :: "pyfloat list \<Rightarrow> error + pyfloat list" where
  \<comment> \<open>\<open>[x / sum(splits) for x in splits]\<close>\<close>
  "normalized xs = comprehension (\<lambda>x. float_truediv x (float_sum xs)) xs"

definition int_times :: "nat \<Rightarrow> pyfloat \<Rightarrow> error + int" where
  \<comment> \<open>\<open>int(N * x)\<close>\<close>
  "int_times N x =
     (case float_of_int (int N) of Inl e \<Rightarrow> Inl e | Inr n \<Rightarrow> int_of_float (fmul n x))"

definition as_ints :: "nat \<Rightarrow> pyfloat list \<Rightarrow> error + int list" where
  \<comment> \<open>\<open>[int(N * x) for x in splits[:-1]]\<close>\<close>
  "as_ints N xs = comprehension (int_times N) (butlast xs)"

definition last_split_zero :: string where
  "last_split_zero =
     ''the last split rounded to zero element. Please provide a greater float or consider passing ints.''"

definition train_split_None :: string where
  "train_split_None = ''the train-set's split cannot be None''"

definition float_lengths :: "nat \<Rightarrow> pyfloat list \<Rightarrow> error + int list" where
  \<comment> \<open>the branch taken when every entry is a float\<close>
  "float_lengths N xs =
     (case normalized xs of
        Inl e \<Rightarrow> Inl e
      | Inr splits \<Rightarrow>
          (case as_ints N splits of
             Inl e \<Rightarrow> Inl e
           | Inr counts \<Rightarrow>
               if int N - sum_list counts = 0 then Inl (ValueError last_split_zero)
               else Inr (counts @ [int N - sum_list counts])))"

definition present :: "'a option list \<Rightarrow> 'a list" where
  \<comment> \<open>\<open>[x for x in splits if x is not None]\<close>\<close>
  "present splits = map the (filter (\<lambda>x. x \<noteq> None) splits)"

definition split_lengths :: "nat \<Rightarrow> pynum option list \<Rightarrow> error + nat list \<times> pynum list" where
  \<comment> \<open>everything \<open>split\<close> does before it calls \<open>random_split\<close>: the indices of the absent
      entries and the lengths handed over\<close>
  "split_lengths N splits =
     (if list_ex (\<lambda>x. x = None) splits \<and> hd splits = None
      then Inl (ValueError train_split_None)
      else
        let nones = (if list_ex (\<lambda>x. x = None) splits
                     then map fst (filter (\<lambda>(i, x). x = None) (zip [0..<length splits] splits))
                     else []);
            splits = present splits
        in if list_all is_float splits
           then (case float_lengths N (map the_float splits) of
                   Inl e \<Rightarrow> Inl e
                 | Inr counts \<Rightarrow> Inr (nones, map PyInt counts))
           else Inr (nones, splits))"

text \<open>
  The last comprehension takes the subsets from the front of \<open>sets\<close>, one for every index
  that is not in \<open>nones\<close>; \<open>pop\<close> on an empty list raises. The indices run over
  \<open>range(len(sets + nones))\<close>, evaluated once before the first \<open>pop\<close>.
\<close>

fun fill_nones :: "nat list \<Rightarrow> 's list \<Rightarrow> nat list \<Rightarrow> error + 's option list" where
  "fill_nones nones sets [] = Inr []"
| "fill_nones nones sets (i # is) =
     (if i \<in> set nones
      then (case fill_nones nones sets is of Inl e \<Rightarrow> Inl e | Inr r \<Rightarrow> Inr (None # r))
      else (case sets of
              [] \<Rightarrow> Inl IndexError
            | x # sets' \<Rightarrow>
                (case fill_nones nones sets' is of Inl e \<Rightarrow> Inl e | Inr r \<Rightarrow> Inr (Some x # r))))"

definition split ::
  "(pynum list \<Rightarrow> error + 's list) \<Rightarrow> nat \<Rightarrow> pynum option list \<Rightarrow> error + 's option list" where
  "split random_split N splits =
     (case split_lengths N splits of
        Inl e \<Rightarrow> Inl e
      | Inr (nones, lengths) \<Rightarrow>
          (case random_split lengths of
             Inl e \<Rightarrow> Inl e
           | Inr sets \<Rightarrow>
               if list_ex (\<lambda>i. i \<noteq> 0) nones
               then fill_nones nones sets [0..<length sets + length nones]
               else Inr (map Some sets)))"

subsection \<open>DBDataset.hparams\<close>

text \<open>
  \<open>self.features\<close> and the \<open>attrs\<close> of each feature come from \<open>Database\<close> (\<open>h5data\<close>, not
  among the sources at hand): the list of feature names and, for each name, the items of
  its attribute dictionary in iteration order.
\<close>

definition this_feat :: "string \<Rightarrow> (string \<times> 'v) list \<Rightarrow> (string \<rightharpoonup> 'v)" where
  \<comment> \<open>\<open>{feat + "_" + k: v for k, v in attrs.items()}\<close>\<close>
  "this_feat feat items = fold (\<lambda>(k, v) d. d(feat @ ''_'' @ k \<mapsto> v)) items Map.empty"

definition hparams :: "string list \<Rightarrow> (string \<Rightarrow> (string \<times> 'v) list) \<Rightarrow> (string \<rightharpoonup> 'v)" where
  "hparams features attrs =
     fold (\<lambda>feat params. params ++ this_feat feat (attrs feat)) features Map.empty"

subsection \<open>DBDataModule\<close>

datatype pyval = PyBool bool | PyNum pynum | PyStr string | PyNone

text \<open>What \<open>train_ds\<close>, \<open>val_ds\<close> and \<open>test_ds\<close> hold: the database itself or a subset drawn
  by \<open>random_split\<close>. A \<open>DataLoader\<close> is the record of the arguments it was built with.\<close>

datatype ('db, 's) dataset = Database 'db | Subset 's

datatype ('db, 's) dataloader = DataLoader "('db, 's) dataset option" "string \<rightharpoonup> pyval"

record ('db, 's) DBDataModule =
  db :: 'db
  in_mem_data :: bool
  splits :: "pynum option list option"
  loader_kwargs :: "string \<rightharpoonup> pyval"
  train_ds :: "('db, 's) dataset option"
  val_ds :: "('db, 's) dataset option"
  test_ds :: "('db, 's) dataset option"
  has_prepared_data :: bool
  has_setup_fit :: bool

text \<open>
  What the module calls outside this file: the length of the database, \<open>random_split\<close>,
  the \<open>prepare_dataset\<close> hook that a subclass of \<open>DBDataset\<close> implements (it may change the
  module, and raises in the base class), and the move of the database to the GPU.
\<close>

record ('db, 's) environment =
  db_len :: "'db \<Rightarrow> nat"
  random_split :: "'db \<Rightarrow> pynum list \<Rightarrow> error + 's list"
  prepare_dataset :: "('db, 's) DBDataModule \<Rightarrow> error + ('db, 's) DBDataModule"
  cuda_is_available :: bool
  to_cuda :: "'db \<Rightarrow> error + 'db"

definition prepare_data ::
  "('db, 's) environment \<Rightarrow> ('db, 's) DBDataModule \<Rightarrow> error + ('db, 's) DBDataModule" where
  \<comment> \<open>the framework records the call in \<open>has_prepared_data\<close>\<close>
  "prepare_data env self = prepare_dataset env (self\<lparr>has_prepared_data := True\<rparr>)"

definition assign_sets ::
  "('db, 's) dataset option list \<Rightarrow> ('db, 's) DBDataModule \<Rightarrow> ('db, 's) DBDataModule" where
  \<comment> \<open>\<open>for ds, attr in zip(sets, ["train_ds", "val_ds", "test_ds"]): setattr(self, attr, ds)\<close>\<close>
  "assign_sets sets self =
     fold (\<lambda>(ds, attr) m. attr ds m)
       (zip sets [\<lambda>ds m. m\<lparr>train_ds := ds\<rparr>, \<lambda>ds m. m\<lparr>val_ds := ds\<rparr>, \<lambda>ds m. m\<lparr>test_ds := ds\<rparr>])
       self"

text \<open>\<open>DBDataModule.setup\<close>; the framework records a call with stage \<open>fit\<close> in
  \<open>has_setup_fit\<close>. \<open>not self.splits\<close> holds for \<open>None\<close> and for the empty sequence.\<close>

definition module_setup ::
  "('db, 's) environment \<Rightarrow> string \<Rightarrow> ('db, 's) DBDataModule \<Rightarrow> error + ('db, 's) DBDataModule" where
  "module_setup env stage self =
     (if stage = ''fit''
      then
        (case (if in_mem_data self \<and> cuda_is_available env then to_cuda env (db self)
               else Inr (db self)) of
           Inl e \<Rightarrow> Inl e
         | Inr d \<Rightarrow>
             (case (if splits self = None \<or> splits self = Some [] then Inr [Some (Database d)]
                    else (case split (random_split env d) (db_len env d) (the (splits self)) of
                            Inl e \<Rightarrow> Inl e
                          | Inr sets \<Rightarrow> Inr (map (map_option Subset) sets))) of
                Inl e \<Rightarrow> Inl e
              | Inr sets \<Rightarrow> Inr (assign_sets sets (self\<lparr>db := d, has_setup_fit := True\<rparr>))))
      else Inr self)"

definition has_val :: "('db, 's) DBDataModule \<Rightarrow> bool" where
  "has_val self =
     (case splits self of
        None \<Rightarrow> False
      | Some sp \<Rightarrow> 2 \<le> length sp \<and> sp ! 1 \<noteq> None)"

definition val_dataloader ::
  "('db, 's) environment \<Rightarrow> bool \<Rightarrow> ('db, 's) DBDataModule \<Rightarrow>
     error + ('db, 's) dataloader option \<times> ('db, 's) DBDataModule" where
  "val_dataloader env shuffle self =
     (if \<not> has_val self then Inr (None, self)
      else
        (case (if \<not> has_prepared_data self then prepare_data env self else Inr self) of
           Inl e \<Rightarrow> Inl e
         | Inr self1 \<Rightarrow>
             (case (if \<not> has_setup_fit self1 then module_setup env ''fit'' self1 else Inr self1) of
                Inl e \<Rightarrow> Inl e
              | Inr self2 \<Rightarrow>
                  Inr (Some (DataLoader (val_ds self2)
                               ((loader_kwargs self2)(''shuffle'' \<mapsto> PyBool shuffle))),
                       self2))))"

section \<open>Auxiliary functions for the proofs\<close>

text \<open>The receptive-field loop by recursion on the remaining layers, looking one layer ahead.\<close>

fun rf_rec :: "WaveNetLayer list \<Rightarrow> pynum \<Rightarrow> error + pynum" where
  "rf_rec [] rf = Inr rf"
| "rf_rec [l] rf = (case receptive_field l of Inl e \<Rightarrow> Inl e | Inr r \<Rightarrow> num_add rf r)"
| "rf_rec (l # l' # ls) rf =
     (if layer_i l' = 0
      then (case receptive_field l of
              Inl e \<Rightarrow> Inl e
            | Inr r \<Rightarrow>
                (case num_sub r (PyInt 1) of
                   Inl e \<Rightarrow> Inl e
                 | Inr r' \<Rightarrow>
                     (case num_add rf r' of Inl e \<Rightarrow> Inl e | Inr rf' \<Rightarrow> rf_rec (l' # ls) rf')))
      else rf_rec (l' # ls) rf)"

text \<open>The layers of a list of blocks, and the sum of \<open>k ^ n - 1\<close> over the blocks.\<close>

fun blocks :: "WNNetwork \<Rightarrow> int list \<Rightarrow> WaveNetLayer list" where
  "blocks net [] = []"
| "blocks net (b # bs) = map (new_layer net) (py_range b) @ blocks net bs"

definition geo :: "int \<Rightarrow> int list \<Rightarrow> int" where
  "geo k bs = (\<Sum>b\<leftarrow>bs. k ^ nat b - 1)"


text \<open>The list \<open>block_rf\<close> of \<open>FreqNet.receptive_field\<close> by recursion, looking one layer ahead.\<close>

fun block_rf_rec :: "FreqLayer list \<Rightarrow> int list" where
  "block_rf_rec (l # l' # ls) =
     (if layer_index l' = 0 then [layer_receptive_field l - 1] else []) @ block_rf_rec (l' # ls)"
| "block_rf_rec ls = []"

text \<open>The output lengths of a stack that shortens its input by \<open>(k - 1) * k ^ layer_i\<close> at
  every layer.\<close>

fun shortened :: "int \<Rightarrow> int \<Rightarrow> WaveNetLayer list \<Rightarrow> int list" where
  "shortened k m [] = []"
| "shortened k m (l # ls) =
     (m - (k - 1) * k ^ nat (layer_i l)) # shortened k (m - (k - 1) * k ^ nat (layer_i l)) ls"

text \<open>All pairs of a composed name and its value, feature after feature.\<close>

definition composed :: "string list \<Rightarrow> (string \<Rightarrow> (string \<times> 'v) list) \<Rightarrow> (string \<times> 'v) list" where
  "composed features attrs =
     concat (map (\<lambda>feat. map (\<lambda>(k, v). (feat @ ''_'' @ k, v)) (attrs feat)) features)"

text \<open>The result of \<open>split\<close>: the subsets put back at the positions that are not \<open>None\<close>.\<close>

fun interleave :: "'a option list \<Rightarrow> 's list \<Rightarrow> 's option list" where
  "interleave [] sets = []"
| "interleave (None # xs) sets = None # interleave xs sets"
| "interleave (Some x # xs) [] = []"
| "interleave (Some x # xs) (s # sets) = Some s # interleave xs sets"

section \<open>Concrete inputs\<close>

text \<open>Networks without a layer, and one with the blocks \<open>(2, 0, 3)\<close>.\<close>

definition empty_net :: WNNetwork where
  "empty_net = \<lparr>n_layers = [0], net_kernel_size = 2, net_accum_outputs = 0, net_pad_input = 0\<rparr>"

definition no_block_net :: WNNetwork where
  "no_block_net = \<lparr>n_layers = [], net_kernel_size = 3, net_accum_outputs = 0, net_pad_input = 0\<rparr>"

definition three_block_net :: WNNetwork where
  "three_block_net =
     \<lparr>n_layers = [2, 0, 3], net_kernel_size = 2, net_accum_outputs = 0, net_pad_input = 0\<rparr>"

definition one_layer_net :: WNNetwork where
  "one_layer_net = \<lparr>n_layers = [1], net_kernel_size = 2, net_accum_outputs = 0, net_pad_input = 0\<rparr>"

text \<open>Two blocks of two and one layers, once as WaveNet layers and once as FreqNet layers.\<close>

definition wn_example :: "WaveNetLayer list" where
  "wn_example =
     [\<lparr>layer_i = 0, kernel_size = 2, pad_input = 0, accum_outputs = 0, stride = 1\<rparr>,
      \<lparr>layer_i = 1, kernel_size = 2, pad_input = 0, accum_outputs = 0, stride = 1\<rparr>,
      \<lparr>layer_i = 0, kernel_size = 2, pad_input = 0, accum_outputs = 0, stride = 1\<rparr>]"

definition freq_example :: "FreqLayer list" where
  "freq_example =
     [\<lparr>layer_index = 0, layer_receptive_field = 2\<rparr>,
      \<lparr>layer_index = 1, layer_receptive_field = 4\<rparr>,
      \<lparr>layer_index = 0, layer_receptive_field = 2\<rparr>]"

text \<open>Attributes of two features whose composed names collide, and of two whose names do
  not.\<close>

definition two_features :: "string \<Rightarrow> (string \<times> int) list" where
  "two_features f = (if f = ''a'' then [(''b_c'', 1)] else [(''c'', 2)])"

definition distinct_features :: "string \<Rightarrow> (string \<times> int) list" where
  "distinct_features f = (if f = ''x'' then [(''sr'', 1)] else [(''n'', 2)])"

text \<open>A \<open>random_split\<close> that hands back the requested lengths in place of the subsets, and
  some \<open>splits\<close> arguments.\<close>

definition requested :: "pynum list \<Rightarrow> error + pynum list" where
  "requested lengths = Inr lengths"

definition train_none_test :: "pynum option list" where
  "train_none_test = [Some (PyInt 3), None, Some (PyInt 1)]"

definition one_none_zero :: "pynum option list" where
  "one_none_zero = [Some (PyFloat (Fin 1)), None, Some (PyFloat (Fin 0))]"

definition halves :: "pynum option list" where
  "halves = [Some (PyFloat (Fin (1 / 2))), Some (PyFloat (Fin (1 / 2)))]"

definition one_zero :: "pynum option list" where
  "one_zero = [Some (PyFloat (Fin 1)), Some (PyFloat (Fin 0))]"

definition zero_zero :: "pynum option list" where
  "zero_zero = [Some (PyFloat (Fin 0)), Some (PyFloat (Fin 0))]"

definition nan_first :: "pynum option list" where
  "nan_first = [Some (PyFloat NaN), Some (PyFloat (Fin 1))]"

definition none_first :: "pynum option list" where
  "none_first = [None, Some (PyInt 2)]"

text \<open>
  A database of four examples whose \<open>prepare_dataset\<close> changes nothing, on a machine
  without GPU, and a module as \<open>__init__\<close> leaves it.
\<close>

definition test_env :: "(unit, pynum) environment" where
  "test_env =
     \<lparr>db_len = (\<lambda>d. 4), random_split = (\<lambda>d. requested), prepare_dataset = Inr,
      cuda_is_available = False, to_cuda = Inr\<rparr>"

definition fresh_module :: "pynum option list option \<Rightarrow> (unit, pynum) DBDataModule" where
  "fresh_module sp =
     \<lparr>db = (), in_mem_data = True, splits = sp, loader_kwargs = Map.empty,
      train_ds = None, val_ds = None, test_ds = None,
      has_prepared_data = False, has_setup_fit = False\<rparr>"

section \<open>Rounding to double is exact on small integers\<close>

lemma quotient_of_of_int: "quotient_of (of_int n) = (n, 1)"
  by (metis Fract_of_int_eq quotient_of_Fract normalize_stable coprime_1_right zero_less_one)

lemma bitlen_one: "bitlen 1 = 1"
  by (simp add: compute_bitlen)

lemma ilog2_int:
  assumes "0 < n"
  shows "ilog2 (of_int n) = bitlen n - 1"
proof -
  have b: "2 ^ nat (bitlen n - 1) \<le> n" using bitlen_bounds [OF assms] by simp
  have ge: "1 \<le> bitlen n" using assms bitlen_eq_zero_iff [of n] bitlen_nonneg [of n] by linarith
  have "(2::rat) powi (bitlen n - 1) = 2 ^ nat (bitlen n - 1)"
    using ge by (simp add: power_int_def)
  also have "\<dots> = of_int (2 ^ nat (bitlen n - 1))" by simp
  also have "\<dots> \<le> of_int n" using b by (simp only: of_int_le_iff)
  finally have "\<not> (of_int n :: rat) < 2 powi (bitlen n - 1)" by simp
  then show ?thesis
    by (simp add: ilog2_def quotient_of_of_int bitlen_one Let_def)
qed

lemma round_double_exact:
  assumes nz: "x \<noteq> 0"
    and int: "\<bar>x\<bar> / 2 powi (max (ilog2 \<bar>x\<bar> - 52) (- 1074)) = of_int z"
    and small: "\<bar>x\<bar> < 2 ^ 1024"
  shows "round_double x = Fin x"
proof -
  let ?u = "max (ilog2 \<bar>x\<bar> - 52) (- 1074)"
  have p: "(2::rat) powi ?u \<noteq> 0" by simp
  have y: "of_int z * 2 powi ?u = \<bar>x\<bar>"
    using int p by (simp add: field_simps)
  have s: "sgn x * \<bar>x\<bar> = x" by (simp add: sgn_mult_abs)
  show ?thesis
    unfolding round_double_def Let_def int
    using nz small y s by simp
qed

lemma round_double_int:
  assumes "\<bar>n\<bar> \<le> 2 ^ 53"
  shows "round_double (of_int n) = Fin (of_int n)"
proof (cases "n = 0")
  case True
  then show ?thesis by (simp add: round_double_def)
next
  case False
  then have pos: "0 < \<bar>n\<bar>" by simp
  have abs: "\<bar>rat_of_int n\<bar> = of_int \<bar>n\<bar>" by simp
  have e: "ilog2 (of_int \<bar>n\<bar>) = bitlen \<bar>n\<bar> - 1" by (rule ilog2_int [OF pos])
  have ge: "1 \<le> bitlen \<bar>n\<bar>"
    using pos bitlen_eq_zero_iff [of "\<bar>n\<bar>"] bitlen_nonneg [of "\<bar>n\<bar>"] by linarith
  have small: "\<bar>rat_of_int n\<bar> < 2 ^ 1024"
  proof -
    have "\<bar>n\<bar> < 2 ^ 1024" using assms by simp
    then have "rat_of_int \<bar>n\<bar> < rat_of_int (2 ^ 1024)" by (simp only: of_int_less_iff)
    then show ?thesis by simp
  qed
  have "\<exists>z. \<bar>rat_of_int n\<bar> / 2 powi (max (ilog2 \<bar>rat_of_int n\<bar> - 52) (- 1074)) = of_int z"
  proof (cases "\<bar>n\<bar> < 2 ^ 53")
    case True
    then have "bitlen \<bar>n\<bar> \<le> 53" by (simp add: bitlen_le_iff_power)
    then have u: "max (bitlen \<bar>n\<bar> - 1 - 52) (- 1074) \<le> 0" by simp
    define v where "v = nat (- max (bitlen \<bar>n\<bar> - 1 - 52) (- 1074))"
    have "max (bitlen \<bar>n\<bar> - 1 - 52) (- 1074) = - int v" using u by (simp add: v_def)
    then have "\<bar>rat_of_int n\<bar> / 2 powi (max (ilog2 \<bar>rat_of_int n\<bar> - 52) (- 1074))
        = of_int \<bar>n\<bar> * 2 ^ v"
      unfolding abs e by (simp add: power_int_minus field_simps)
    also have "\<dots> = of_int (\<bar>n\<bar> * 2 ^ v)" by simp
    finally show ?thesis by blast
  next
    case False
    then have eq: "\<bar>n\<bar> = 2 ^ 53" using assms by simp
    have "bitlen (1 * 2 ^ 53) = bitlen 1 + int 53" by (rule bitlen_pow2) simp
    then have "bitlen \<bar>n\<bar> = 54" by (simp add: eq bitlen_one)
    then have "\<bar>rat_of_int n\<bar> / 2 powi (max (ilog2 \<bar>rat_of_int n\<bar> - 52) (- 1074))
        = of_int (2 ^ 52)"
      unfolding abs e by (simp add: eq)
    then show ?thesis by blast
  qed
  then obtain z where
    "\<bar>rat_of_int n\<bar> / 2 powi (max (ilog2 \<bar>rat_of_int n\<bar> - 52) (- 1074)) = of_int z" ..
  then show ?thesis
    using False small round_double_exact [of "of_int n" z] by simp
qed

lemma round_double_zero [simp]: "round_double 0 = Fin 0"
  by (simp add: round_double_def)

lemma round_double_small [simp]:
  "round_double 1 = Fin 1" "round_double 2 = Fin 2" "round_double 4 = Fin 4"
  "round_double 5 = Fin 5"
  using round_double_int [of 1] round_double_int [of 2] round_double_int [of 4]
    round_double_int [of 5]
  by simp_all

lemma round_double_half [simp]: "round_double (1 / 2) = Fin (1 / 2)"
proof -
  have q: "quotient_of (1 / 2) = (1, 2)"
    by (metis Fract_of_int_quotient of_int_1 of_int_numeral quotient_of_Fract normalize_stable
        coprime_1_left zero_less_numeral)
  have b2: "bitlen 2 = 2" using bitlen_twopow_add_eq [of 0 1] by simp
  have e: "ilog2 (1 / 2) = - 1"
    by (simp add: ilog2_def q bitlen_one b2 power_int_minus)
  have "\<bar>1 / 2 :: rat\<bar> / 2 powi max (ilog2 \<bar>1 / 2\<bar> - 52) (- 1074) = of_int (2 ^ 52)"
    by (simp add: e power_int_minus)
  then show ?thesis
    by (rule round_double_exact [rotated]) simp_all
qed

lemma round_double_third:
  "round_double (1 / 3) = Fin (6004799503160661 / 18014398509481984)"
proof -
  have q: "quotient_of (1 / 3) = (1, 3)"
    by (metis Fract_of_int_quotient of_int_1 of_int_numeral quotient_of_Fract normalize_stable
        coprime_1_left zero_less_numeral)
  have b3: "bitlen 3 = 2" using bitlen_twopow_add_eq [of 1 1] by simp
  have e: "ilog2 (1 / 3) = - 2"
    by (simp add: ilog2_def q bitlen_one b3 power_int_minus)
  have u: "max (ilog2 \<bar>1 / 3\<bar> - 52) (- 1074) = - 54" by (simp add: e)
  have m: "\<bar>1 / 3 :: rat\<bar> / 2 powi (- 54) = 18014398509481984 / 3"
    by (simp add: power_int_minus)
  have fl: "\<lfloor>18014398509481984 / 3 :: rat\<rfloor> = 6004799503160661"
    by (rule floor_unique) simp_all
  show ?thesis
    unfolding round_double_def Let_def u m fl by (simp add: power_int_minus)
qed

lemma int_truediv_one:
  "\<bar>n\<bar> \<le> 2 ^ 53 \<Longrightarrow> int_truediv n 1 = Inr (Fin (of_int n))"
  by (simp add: int_truediv_def round_double_int)

lemma floor_one_plus:
  assumes "\<bar>n\<bar> \<le> 2 ^ 53" "\<bar>n + 1\<bar> \<le> 2 ^ 53"
  shows "math_floor (fadd (Fin 1) (Fin (of_int n))) = Inr (n + 1)"
proof -
  have "fadd (Fin 1) (Fin (rat_of_int n)) = round_double (of_int (n + 1))"
    by (simp add: add.commute)
  also have "\<dots> = Fin (of_int (n + 1))" by (rule round_double_int [OF assms(2)])
  finally show ?thesis by simp
qed

section \<open>The receptive-field loop on the layers of a network\<close>

lemma rf_loop_suffix:
  "for_loop (rf_step (pre @ ls)) (enumerate (length pre) ls) rf = rf_rec ls rf"
proof (induction ls arbitrary: pre rf)
  case Nil
  show ?case by simp
next
  case (Cons l ls)
  show ?case
  proof (cases ls)
    case Nil
    then show ?thesis by (simp add: rf_step_def split: sum.splits)
  next
    case (Cons l' ls')
    have nth: "(pre @ l # l' # ls') ! Suc (length pre) = l'"
      by (simp add: nth_append)
    have step: "for_loop (rf_step (pre @ l # ls)) (enumerate (Suc (length pre)) ls) acc
        = rf_rec ls acc" for acc
      using Cons.IH [of "pre @ [l]" acc] by simp
    show ?thesis
      using nth step unfolding Cons
      by (simp add: rf_step_def split: sum.splits)
  qed
qed

lemma receptive_field_loop_rec: "receptive_field_loop ls = rf_rec ls (PyInt 0)"
  using rf_loop_suffix [of "[]" ls "PyInt 0"] by (simp add: receptive_field_loop_def)

lemma new_layer_simps [simp]:
  "layer_i (new_layer net i) = i"
  "kernel_size (new_layer net i) = net_kernel_size net"
  "pad_input (new_layer net i) = net_pad_input net"
  "accum_outputs (new_layer net i) = net_accum_outputs net"
  "stride (new_layer net i) = 1"
  by (simp_all add: new_layer_def)

lemma dilation_new_layer:
  "dilation (new_layer net (int j)) = Inr (PyInt (net_kernel_size net ^ j))"
  by (simp add: dilation_def py_pow_def)

lemma receptive_field_new_layer:
  "receptive_field (new_layer net (int j)) =
     Inr (PyInt (net_kernel_size net * net_kernel_size net ^ j))"
  by (simp add: receptive_field_def dilation_new_layer)

lemma rf_rec_block:
  "i < n \<Longrightarrow>
   rf_rec (map (new_layer net) (map int [i..<n]) @ rest) (PyInt acc) =
     (if rest = [] then Inr (PyInt (acc + net_kernel_size net ^ n))
      else if layer_i (hd rest) = 0 then rf_rec rest (PyInt (acc + (net_kernel_size net ^ n - 1)))
      else rf_rec rest (PyInt acc))"
proof (induction "n - i" arbitrary: i)
  case 0
  then show ?case by simp
next
  case (Suc d)
  have upt: "[i..<n] = i # [Suc i..<n]"
    using Suc.prems by (simp add: upt_conv_Cons)
  show ?case
  proof (cases "Suc i = n")
    case True
    then have "[Suc i..<n] = []" by simp
    then show ?thesis
      using True upt
      by (cases rest) (auto simp: receptive_field_new_layer)
  next
    case False
    then have lt: "Suc i < n" using Suc.prems by simp
    have upt2: "[Suc i..<n] = Suc i # [Suc (Suc i)..<n]"
      using lt by (simp add: upt_conv_Cons)
    have "d = n - Suc i" using Suc.hyps(2) by simp
    from Suc.hyps(1) [OF this lt] show ?thesis
      unfolding upt by (simp add: upt2)
  qed
qed

lemma geo_simps [simp]:
  "geo k [] = 0"
  "geo k (b # bs) = (k ^ nat b - 1) + geo k bs"
  by (simp_all add: geo_def)

lemma layers_of_blocks: "layers_of net = blocks net (n_layers net)"
proof -
  have "concat (map (\<lambda>block. map (new_layer net) (py_range block)) bs) = blocks net bs" for bs
    by (induction bs) simp_all
  then show ?thesis by (simp add: layers_of_def)
qed

lemma py_range_empty: "\<not> 0 < b \<Longrightarrow> py_range b = []"
  by (simp add: py_range_def)

lemma py_range_Cons: "0 < b \<Longrightarrow> py_range b = 0 # map int [1..<nat b]"
  by (simp add: py_range_def upt_conv_Cons)

lemma blocks_Nil_iff: "blocks net bs = [] \<longleftrightarrow> (\<forall>b\<in>set bs. \<not> 0 < b)"
  by (induction bs) (auto simp: py_range_empty py_range_Cons)

lemma py_range_Nil_iff: "py_range b = [] \<longleftrightarrow> b \<le> 0"
  by (simp add: py_range_def)

lemma blocks_Nil_geo: "blocks net bs = [] \<Longrightarrow> geo k bs = 0"
  by (induction bs) (simp_all add: py_range_Nil_iff)

lemma blocks_hd: "blocks net bs \<noteq> [] \<Longrightarrow> layer_i (hd (blocks net bs)) = 0"
proof (induction bs)
  case Nil
  then show ?case by simp
next
  case (Cons b bs)
  then show ?case
    by (cases "0 < b") (simp_all add: py_range_empty py_range_Cons)
qed

lemma rf_rec_blocks:
  "rf_rec (blocks net bs) (PyInt acc) =
     (if blocks net bs = [] then Inr (PyInt acc)
      else Inr (PyInt (acc + 1 + geo (net_kernel_size net) bs)))"
proof (induction bs arbitrary: acc)
  case Nil
  show ?case by simp
next
  case (Cons b bs)
  show ?case
  proof (cases "0 < b")
    case False
    then have "py_range b = []" "nat b = 0" by (simp_all add: py_range_empty)
    then show ?thesis using Cons.IH by simp
  next
    case True
    then have pos: "0 < nat b" by simp
    have blk: "rf_rec (map (new_layer net) (py_range b) @ blocks net bs) (PyInt acc) =
       (if blocks net bs = [] then Inr (PyInt (acc + net_kernel_size net ^ nat b))
        else if layer_i (hd (blocks net bs)) = 0
          then rf_rec (blocks net bs) (PyInt (acc + (net_kernel_size net ^ nat b - 1)))
        else rf_rec (blocks net bs) (PyInt acc))"
      using rf_rec_block [OF pos, of net "blocks net bs" acc] by (simp add: py_range_def)
    have ne: "py_range b \<noteq> []" using True by (simp add: py_range_Cons)
    show ?thesis
    proof (cases "blocks net bs = []")
      case True
      then show ?thesis
        using blk ne blocks_Nil_geo [OF True, of "net_kernel_size net"] by simp
    next
      case False
      then show ?thesis
        using blk ne blocks_hd [OF False] Cons.IH by simp
    qed
  qed
qed

lemma sum_geometric: "(\<Sum>j\<leftarrow>[0..<n]. (k - 1) * k ^ j) = k ^ n - (1::int)"
  by (induction n) (simp_all add: algebra_simps)

lemma geo_layers:
  "(\<Sum>l\<leftarrow>blocks net bs. (net_kernel_size net - 1) * net_kernel_size net ^ nat (layer_i l))
     = geo (net_kernel_size net) bs"
proof (induction bs)
  case Nil
  show ?case by simp
next
  case (Cons b bs)
  have "(\<Sum>l\<leftarrow>map (new_layer net) (py_range b).
            (net_kernel_size net - 1) * net_kernel_size net ^ nat (layer_i l))
        = (\<Sum>j\<leftarrow>[0..<nat b]. (net_kernel_size net - 1) * net_kernel_size net ^ j)"
    by (simp add: py_range_def comp_def)
  then show ?case using Cons.IH by (simp add: sum_geometric)
qed

lemma geo_closed: "1 + geo k bs = (\<Sum>b\<leftarrow>bs. k ^ nat b) - (int (length bs) - 1)"
  by (induction bs) simp_all

lemma for_loop_add:
  "(\<And>x. x \<in> set xs \<Longrightarrow> g x = Inr (PyInt (h x))) \<Longrightarrow>
   for_loop (\<lambda>x acc. case g x of Inl e \<Rightarrow> Inl e | Inr s \<Rightarrow> num_add acc s) xs (PyInt a)
     = Inr (PyInt (a + sum_list (map h xs)))"
  by (induction xs arbitrary: a) (simp_all add: add.assoc)

lemma comprehension_Inr:
  "(\<And>x. x \<in> set xs \<Longrightarrow> f x = Inr (g x)) \<Longrightarrow> comprehension f xs = Inr (map g xs)"
  by (induction xs) simp_all

lemma blocks_layer:
  "l \<in> set (blocks net bs) \<Longrightarrow> \<exists>j. l = new_layer net (int j)"
  by (induction bs) (auto simp: py_range_def)

lemma dilation_built:
  assumes "l \<in> set (blocks net bs)"
  shows "dilation l = Inr (PyInt (net_kernel_size net ^ nat (layer_i l)))"
proof -
  obtain j where "l = new_layer net (int j)" using blocks_layer [OF assms] ..
  then show ?thesis by (simp add: dilation_new_layer)
qed

lemma shift_diff_built:
  assumes "l \<in> set (blocks net bs)"
  shows "shift_diff l =
     Inr (PyInt (if net_pad_input net = 0
          then (net_kernel_size net - 1) * net_kernel_size net ^ nat (layer_i l) else 0))"
proof -
  obtain j where "l = new_layer net (int j)" using blocks_layer [OF assms(1)] ..
  then show ?thesis by (simp add: shift_diff_def dilation_new_layer)
qed

lemma shift_sum_built:
  "shift_sum (layers_of net) =
     Inr (PyInt (if net_pad_input net = 0 then geo (net_kernel_size net) (n_layers net) else 0))"
proof -
  have "shift_sum (blocks net bs) =
      Inr (PyInt (0 + (\<Sum>l\<leftarrow>blocks net bs. if net_pad_input net = 0
            then (net_kernel_size net - 1) * net_kernel_size net ^ nat (layer_i l) else 0)))" for bs
    unfolding shift_sum_def
    by (rule for_loop_add) (rule shift_diff_built)
  then show ?thesis using geo_layers [of net "n_layers net"] by (simp add: layers_of_blocks)
qed

lemma receptive_field_loop_built:
  "receptive_field_loop (layers_of net) =
     (if layers_of net = [] then Inr (PyInt 0)
      else Inr (PyInt (1 + geo (net_kernel_size net) (n_layers net))))"
  by (simp add: receptive_field_loop_rec layers_of_blocks rf_rec_blocks)

lemma layers_of_Nil_iff: "layers_of net = [] \<longleftrightarrow> (\<forall>b\<in>set (n_layers net). b \<le> 0)"
  by (auto simp: layers_of_blocks blocks_Nil_iff)


section \<open>The claims about the WaveNet arithmetic\<close>

text \<open>
  Claim C7, amended. For a layer whose index is not negative (every index \<open>WNNetwork\<close>
  hands out is drawn from \<open>range(block)\<close>) the \<open>dilation\<close> property is the int
  \<open>kernel_size\<close> raised to the power \<open>layer_i\<close>. For an index from \<open>- (2 ^ 53)\<close> to \<open>- 1\<close> it
  is not an int: with the kernel size \<open>0\<close> the property raises ZeroDivisionError, and with
  a kernel size other than \<open>0\<close> and at most \<open>2 ^ 53\<close> in absolute value it is the float
  nearest to the power.
\<close>

theorem dilation_is_power:
  "(0 \<le> layer_i self \<longrightarrow>
      dilation self = Inr (PyInt (kernel_size self ^ nat (layer_i self)))) \<and>
   (layer_i self < 0 \<and> - (2 ^ 53) \<le> layer_i self \<and> kernel_size self = 0 \<longrightarrow>
      dilation self = Inl ZeroDivisionError) \<and>
   (layer_i self < 0 \<and> - (2 ^ 53) \<le> layer_i self \<and>
    kernel_size self \<noteq> 0 \<and> \<bar>kernel_size self\<bar> \<le> 2 ^ 53 \<longrightarrow>
      dilation self =
        Inr (PyFloat (round_double (of_int (kernel_size self) powi layer_i self))))"
proof (intro conjI impI)
  assume "0 \<le> layer_i self"
  then show "dilation self = Inr (PyInt (kernel_size self ^ nat (layer_i self)))"
    by (simp add: dilation_def py_pow_def)
next
  assume a: "layer_i self < 0 \<and> - (2 ^ 53) \<le> layer_i self \<and> kernel_size self = 0"
  have i: "round_double (of_int (layer_i self)) = Fin (of_int (layer_i self))"
    using a by (intro round_double_int) simp
  show "dilation self = Inl ZeroDivisionError"
    using a by (simp add: dilation_def py_pow_def i)
next
  assume a: "layer_i self < 0 \<and> - (2 ^ 53) \<le> layer_i self \<and>
    kernel_size self \<noteq> 0 \<and> \<bar>kernel_size self\<bar> \<le> 2 ^ 53"
  have k: "round_double (of_int (kernel_size self)) = Fin (of_int (kernel_size self))"
    using a by (intro round_double_int) simp
  have i: "round_double (of_int (layer_i self)) = Fin (of_int (layer_i self))"
    using a by (intro round_double_int) simp
  show "dilation self =
      Inr (PyFloat (round_double (of_int (kernel_size self) powi layer_i self)))"
    using a by (simp add: dilation_def py_pow_def k i)
qed

theorem dilation_is_power_witness:
  "dilation \<lparr>layer_i = 3, kernel_size = 2, pad_input = 0, accum_outputs = 0, stride = 1\<rparr>
     = Inr (PyInt 8) \<and>
   dilation \<lparr>layer_i = - 1, kernel_size = 0, pad_input = 0, accum_outputs = 0, stride = 1\<rparr>
     = Inl ZeroDivisionError \<and>
   dilation \<lparr>layer_i = - 1, kernel_size = 2, pad_input = 0, accum_outputs = 0, stride = 1\<rparr>
     = Inr (PyFloat (Fin (1 / 2)))"
  using dilation_is_power
    [of "\<lparr>layer_i = 3, kernel_size = 2, pad_input = 0, accum_outputs = 0, stride = 1\<rparr>"]
    dilation_is_power
    [of "\<lparr>layer_i = - 1, kernel_size = 0, pad_input = 0, accum_outputs = 0, stride = 1\<rparr>"]
    dilation_is_power
    [of "\<lparr>layer_i = - 1, kernel_size = 2, pad_input = 0, accum_outputs = 0, stride = 1\<rparr>"]
  by (simp add: power_int_minus)

text \<open>
  The claim as stated, for every layer, fails at a negative index. \<open>3 ** -1\<close> is the double
  \<open>0.3333333333333333\<close>, which is \<open>6004799503160661 / 2 ^ 54\<close> and not the power \<open>1 / 3\<close>;
  no double is. \<open>0 ** -1\<close> is no number at all: the property raises ZeroDivisionError.
\<close>

theorem dilation_negative_index:
  "dilation \<lparr>layer_i = - 1, kernel_size = 3, pad_input = 0, accum_outputs = 0, stride = 1\<rparr>
     = Inr (PyFloat (Fin (6004799503160661 / 18014398509481984))) \<and>
   (6004799503160661 / 18014398509481984 :: rat) \<noteq> 3 powi (- 1) \<and>
   dilation \<lparr>layer_i = - 1, kernel_size = 0, pad_input = 0, accum_outputs = 0, stride = 1\<rparr>
     = Inl ZeroDivisionError"
proof -
  have "round_double (of_int 3) = Fin (of_int 3)" by (rule round_double_int) simp
  then have k: "round_double 3 = Fin 3" by simp
  have "round_double (of_int (- 1)) = Fin (of_int (- 1))" by (rule round_double_int) simp
  then have i: "round_double (- 1) = Fin (- 1)" by simp
  have fl: "\<lfloor>- 1 :: rat\<rfloor> = - 1" by (rule floor_unique) simp_all
  show ?thesis
    by (simp add: dilation_def py_pow_def k i fl power_int_minus round_double_third)
qed

text \<open>
  Claim C1, amended. For a network whose block sizes are not negative and that has at
  least one layer (one block size is positive), \<open>__post_init__\<close> stores as receptive field
  \<open>1\<close> plus the sum over all layers of \<open>(k - 1) * dilation\<close>, and this number is the sum
  over the blocks of \<open>k ^ n\<close> minus \<open>B - 1\<close>. This holds for every kernel size, so for
  \<open>k \<ge> 2\<close>.
\<close>

theorem receptive_field_closed_form:
  assumes "\<forall>b\<in>set (n_layers net). 0 \<le> b" and "\<exists>b\<in>set (n_layers net). 0 < b"
  shows "\<exists>ds shift.
     comprehension dilation (layers_of net) = Inr (map PyInt ds) \<and>
     post_init net = Inr (PyInt (1 + (\<Sum>d\<leftarrow>ds. (net_kernel_size net - 1) * d)), shift) \<and>
     1 + (\<Sum>d\<leftarrow>ds. (net_kernel_size net - 1) * d) =
       (\<Sum>b\<leftarrow>n_layers net. net_kernel_size net ^ nat b) - (int (length (n_layers net)) - 1)"
proof -
  let ?k = "net_kernel_size net"
  let ?ds = "map (\<lambda>l. ?k ^ nat (layer_i l)) (layers_of net)"
  have ne: "layers_of net \<noteq> []"
    using assms(2) by (fastforce simp: layers_of_Nil_iff)
  have "comprehension dilation (layers_of net) =
      Inr (map (\<lambda>l. PyInt (?k ^ nat (layer_i l))) (layers_of net))"
    by (rule comprehension_Inr) (simp add: layers_of_blocks dilation_built)
  then have ds: "comprehension dilation (layers_of net) = Inr (map PyInt ?ds)"
    by (simp add: comp_def)
  have sum: "(\<Sum>d\<leftarrow>?ds. (?k - 1) * d) = geo ?k (n_layers net)"
    using geo_layers [of net "n_layers net"] by (simp add: layers_of_blocks comp_def)
  have rf: "receptive_field_loop (layers_of net) = Inr (PyInt (1 + geo ?k (n_layers net)))"
    using ne by (simp add: receptive_field_loop_built)
  have "\<exists>shift. post_init net = Inr (PyInt (1 + geo ?k (n_layers net)), shift)"
    by (simp add: post_init_def rf shift_sum_built)
  then obtain shift where "post_init net = Inr (PyInt (1 + geo ?k (n_layers net)), shift)" ..
  then have "comprehension dilation (layers_of net) = Inr (map PyInt ?ds) \<and>
     post_init net = Inr (PyInt (1 + (\<Sum>d\<leftarrow>?ds. (?k - 1) * d)), shift) \<and>
     1 + (\<Sum>d\<leftarrow>?ds. (?k - 1) * d) =
       (\<Sum>b\<leftarrow>n_layers net. ?k ^ nat b) - (int (length (n_layers net)) - 1)"
    using ds sum geo_closed [of ?k "n_layers net"] by simp
  then show ?thesis by (intro exI)
qed


theorem receptive_field_closed_form_witness:
  "n_layers three_block_net = [2, 0, 3] \<and>
   (\<exists>shift. post_init three_block_net = Inr (PyInt 11, shift))"
proof -
  have h1: "\<forall>b\<in>set (n_layers three_block_net). 0 \<le> b" by (simp add: three_block_net_def)
  have h2: "\<exists>b\<in>set (n_layers three_block_net). 0 < b" by (simp add: three_block_net_def)
  from receptive_field_closed_form [OF h1 h2] obtain ds shift where
    p: "post_init three_block_net =
          Inr (PyInt (1 + (\<Sum>d\<leftarrow>ds. (net_kernel_size three_block_net - 1) * d)), shift)"
    and c: "1 + (\<Sum>d\<leftarrow>ds. (net_kernel_size three_block_net - 1) * d) =
       (\<Sum>b\<leftarrow>n_layers three_block_net. net_kernel_size three_block_net ^ nat b)
         - (int (length (n_layers three_block_net)) - 1)"
    by blast
  have "(\<Sum>b\<leftarrow>n_layers three_block_net. net_kernel_size three_block_net ^ nat b)
         - (int (length (n_layers three_block_net)) - 1) = 11"
    by (simp add: three_block_net_def)
  with p c have "post_init three_block_net = Inr (PyInt 11, shift)" by simp
  then show ?thesis by (auto simp: three_block_net_def)
qed


text \<open>
  The claim as stated, for every network, fails on a network without a layer: the loop
  body never runs and the receptive field stays \<open>0\<close>, while \<open>1\<close> plus the empty sum and
  \<open>2 ^ 0 - (1 - 1)\<close> are \<open>1\<close>.
\<close>

theorem receptive_field_empty_stack:
  "2 \<le> net_kernel_size empty_net \<and> layers_of empty_net = [] \<and>
   post_init empty_net = Inr (PyInt 0, PyInt 1) \<and>
   post_init empty_net \<noteq> Inr (PyInt (2 ^ nat 0 - (1 - 1)), PyInt 1)"
  by (simp add: empty_net_def post_init_def layers_of_def py_range_def receptive_field_loop_def
      shift_sum_def)


text \<open>
  Claim C2, amended. For a network with \<open>pad_input = 0\<close> and at least one layer, the
  shift that \<open>__post_init__\<close> stores, the sum of the layers' \<open>shift_diff\<close> plus \<open>1\<close>, equals
  the receptive field it stores.
\<close>

theorem shift_equals_receptive_field:
  assumes "net_pad_input net = 0" and "\<exists>b\<in>set (n_layers net). 0 < b"
  shows "\<exists>rf s. shift_sum (layers_of net) = Inr (PyInt s) \<and>
     post_init net = Inr (PyInt rf, PyInt (s + 1)) \<and> s + 1 = rf"
proof -
  have ne: "layers_of net \<noteq> []"
    using assms(2) by (fastforce simp: layers_of_Nil_iff)
  have "post_init net = Inr (PyInt (1 + geo (net_kernel_size net) (n_layers net)),
      PyInt (geo (net_kernel_size net) (n_layers net) + 1))"
    using ne assms(1) by (simp add: post_init_def receptive_field_loop_built shift_sum_built)
  then show ?thesis using assms(1) by (simp add: shift_sum_built)
qed

theorem shift_equals_receptive_field_witness:
  "net_pad_input three_block_net = 0 \<and> (\<exists>b\<in>set (n_layers three_block_net). 0 < b) \<and>
   post_init three_block_net = Inr (PyInt 11, PyInt 11)"
proof -
  have h1: "net_pad_input three_block_net = 0" by (simp add: three_block_net_def)
  have h2: "\<exists>b\<in>set (n_layers three_block_net). 0 < b" by (simp add: three_block_net_def)
  from shift_equals_receptive_field [OF h1 h2] obtain rf s where
    s: "shift_sum (layers_of three_block_net) = Inr (PyInt s)"
    and p: "post_init three_block_net = Inr (PyInt rf, PyInt (s + 1))" and e: "s + 1 = rf"
    by blast
  have "shift_sum (layers_of three_block_net) = Inr (PyInt 10)"
    by (simp add: shift_sum_built three_block_net_def)
  with s have "s = 10" by simp
  with p e have "post_init three_block_net = Inr (PyInt 11, PyInt 11)" by auto
  with h1 h2 show ?thesis by blast
qed


text \<open>Without a layer the shift is \<open>0 + 1\<close> and the receptive field is \<open>0\<close>.\<close>

theorem shift_differs_on_empty_stack:
  "net_pad_input no_block_net = 0 \<and> post_init no_block_net = Inr (PyInt 0, PyInt 1)"
  by (simp add: no_block_net_def post_init_def layers_of_def receptive_field_loop_def shift_sum_def)

section \<open>The two receptive-field loops\<close>

lemma block_rf_suffix:
  "concat (map (\<lambda>(i, layer).
       if layer_index ((pre @ ls) ! (i + 1)) = 0 then [layer_receptive_field layer - 1] else [])
     (enumerate (length pre) (butlast ls))) = block_rf_rec ls"
proof (induction ls arbitrary: pre)
  case Nil
  show ?case by simp
next
  case (Cons l ls)
  show ?case
  proof (cases ls)
    case Nil
    then show ?thesis by simp
  next
    case (Cons l' ls')
    have nth: "(pre @ l # l' # ls') ! Suc (length pre) = l'"
      by (simp add: nth_append)
    show ?thesis
      using nth Cons.IH [of "pre @ [l]"] unfolding Cons by simp
  qed
qed

lemma block_rf_rec_eq: "block_rf ls = block_rf_rec ls"
  using block_rf_suffix [of "[]" ls] by (simp add: block_rf_def)

lemma rf_rec_block_rf:
  assumes "list_all2 (\<lambda>l f. receptive_field l = Inr (PyInt (layer_receptive_field f))
              \<and> (layer_i l = 0 \<longleftrightarrow> layer_index f = 0)) ls fs"
    and "ls \<noteq> []"
  shows "rf_rec ls (PyInt acc) =
     Inr (PyInt (acc + sum_list (block_rf_rec fs) + layer_receptive_field (last fs)))"
  using assms
proof (induction ls arbitrary: fs acc)
  case Nil
  then show ?case by simp
next
  case (Cons l ls)
  from Cons.prems(1) obtain f fs' where fs: "fs = f # fs'"
    and hd: "receptive_field l = Inr (PyInt (layer_receptive_field f))"
    and tl: "list_all2 (\<lambda>l f. receptive_field l = Inr (PyInt (layer_receptive_field f))
              \<and> (layer_i l = 0 \<longleftrightarrow> layer_index f = 0)) ls fs'"
    by (auto simp: list_all2_Cons1)
  show ?case
  proof (cases ls)
    case Nil
    then have "fs' = []" using tl by simp
    then show ?thesis using Nil fs hd by simp
  next
    case (Cons l' ls')
    then obtain f' fs'' where fs': "fs' = f' # fs''"
      and z: "layer_i l' = 0 \<longleftrightarrow> layer_index f' = 0"
      using tl by (auto simp: list_all2_Cons1)
    have ih: "rf_rec ls (PyInt a) =
        Inr (PyInt (a + sum_list (block_rf_rec fs') + layer_receptive_field (last fs')))"
      for a
      using Cons.IH [OF tl] Cons by simp
    show ?thesis
      using ih z hd unfolding Cons fs fs' by simp
  qed
qed

lemma map_enumerate_nth:
  "map f (enumerate 0 xs) = map (\<lambda>i. f (i, xs ! i)) [0..<length xs]"
  by (rule nth_equalityI) (simp_all add: nth_enumerate_eq)

lemma sum_list_concat_if:
  "sum_list (concat (map (\<lambda>i. if c i then [v i] else []) is)) =
   (\<Sum>i\<leftarrow>is. if c i then v i else (0::int))"
  by (induction "is") simp_all

lemma block_rf_sum:
  "sum_list (block_rf fs) =
     (\<Sum>i\<leftarrow>[0..<length fs - 1].
        if layer_index (fs ! (i + 1)) = 0 then layer_receptive_field (fs ! i) - 1 else 0)"
proof -
  have "map (\<lambda>(i, layer).
       if layer_index (fs ! (i + 1)) = 0 then [layer_receptive_field layer - 1] else [])
     (enumerate 0 (butlast fs))
    = map (\<lambda>i. if layer_index (fs ! (i + 1)) = 0 then [layer_receptive_field (fs ! i) - 1] else [])
       [0..<length fs - 1]"
    unfolding map_enumerate_nth
    by (rule map_cong) (auto simp: nth_butlast)
  then show ?thesis
    unfolding block_rf_def by (simp only: sum_list_concat_if)
qed


text \<open>
  Claim C5, amended. Take a list of WaveNet layers that is not empty and a list of FreqNet
  layers of the same length, with the same receptive field and the same answer to "is
  the index 0" at every position. Then the loop of \<open>WNNetwork.__post_init__\<close> and
  \<open>FreqNet.receptive_field\<close> return the same number: the sum, over every layer but the last
  whose successor starts a block, of its receptive field minus \<open>1\<close>, plus the receptive
  field of the last layer.
\<close>

theorem receptive_field_loops_agree:
  assumes "layers \<noteq> []"
    and "list_all2 (\<lambda>l f. receptive_field l = Inr (PyInt (layer_receptive_field f))
              \<and> (layer_i l = 0 \<longleftrightarrow> layer_index f = 0)) layers flayers"
  shows "\<exists>r. receptive_field_loop layers = Inr (PyInt r) \<and>
     FreqNet_receptive_field flayers = Inr r \<and>
     r = (\<Sum>i\<leftarrow>[0..<length flayers - 1].
               if layer_index (flayers ! (i + 1)) = 0
               then layer_receptive_field (flayers ! i) - 1 else 0)
            + layer_receptive_field (last flayers)"
proof -
  have ne: "flayers \<noteq> []" using assms by auto
  have "receptive_field_loop layers =
      Inr (PyInt (sum_list (block_rf flayers) + layer_receptive_field (last flayers)))"
    using rf_rec_block_rf [OF assms(2) assms(1), of 0]
    by (simp add: receptive_field_loop_rec block_rf_rec_eq)
  moreover have "FreqNet_receptive_field flayers =
      Inr (sum_list (block_rf flayers) + layer_receptive_field (last flayers))"
    using ne by (simp add: FreqNet_receptive_field_def)
  ultimately show ?thesis by (simp add: block_rf_sum)
qed

theorem receptive_field_loops_agree_witness:
  "wn_example \<noteq> [] \<and>
   list_all2 (\<lambda>l f. receptive_field l = Inr (PyInt (layer_receptive_field f))
              \<and> (layer_i l = 0 \<longleftrightarrow> layer_index f = 0)) wn_example freq_example \<and>
   receptive_field_loop wn_example = Inr (PyInt 5) \<and>
   FreqNet_receptive_field freq_example = Inr 5"
proof -
  have h1: "wn_example \<noteq> []" by (simp add: wn_example_def)
  have h2: "list_all2 (\<lambda>l f. receptive_field l = Inr (PyInt (layer_receptive_field f))
              \<and> (layer_i l = 0 \<longleftrightarrow> layer_index f = 0)) wn_example freq_example"
    by (simp add: wn_example_def freq_example_def receptive_field_def dilation_def py_pow_def)
  have f: "(\<Sum>i\<leftarrow>[0..<length freq_example - 1].
               if layer_index (freq_example ! (i + 1)) = 0
               then layer_receptive_field (freq_example ! i) - 1 else 0)
            + layer_receptive_field (last freq_example) = 5"
    by (simp add: freq_example_def upt_rec)
  show ?thesis
    using receptive_field_loops_agree [OF h1 h2] h1 h2 unfolding f by simp
qed


text \<open>On the empty list the first loop returns \<open>0\<close> and the second raises: \<open>self.layers[-1]\<close>
  does not exist.\<close>

theorem receptive_field_loops_differ_on_empty:
  "receptive_field_loop [] = Inr (PyInt 0) \<and> FreqNet_receptive_field [] = Inl IndexError"
  by (simp add: receptive_field_loop_def FreqNet_receptive_field_def)


section \<open>Output lengths\<close>

lemma output_length_exact:
  assumes l: "l = new_layer net (int j)" and pad: "net_pad_input net = 0"
    and lo: "(net_kernel_size net - 1) * net_kernel_size net ^ j + 1 \<le> m"
    and hi: "m \<le> 2 ^ 53" and k: "1 \<le> net_kernel_size net"
  shows "output_length l m = Inr (m - (net_kernel_size net - 1) * net_kernel_size net ^ nat (layer_i l))"
proof -
  let ?k = "net_kernel_size net"
  let ?num = "m - ?k ^ j * (?k - 1) - 1"
  have nonneg: "0 \<le> (?k - 1) * ?k ^ j" using k by simp
  have n0: "0 \<le> ?num" using lo by (simp add: mult.commute)
  have n1: "?num + 1 \<le> 2 ^ 53" using hi nonneg by (simp add: mult.commute)
  have a1: "\<bar>?num\<bar> \<le> 2 ^ 53" using n0 n1 by simp
  have a2: "\<bar>?num + 1\<bar> \<le> 2 ^ 53" using n0 n1 by simp
  have "output_length l m = math_floor (fadd (Fin 1) (Fin (of_int ?num)))"
    using pad
    by (simp add: output_length_def l dilation_new_layer int_truediv_one [OF a1])
  also have "\<dots> = Inr (?num + 1)" by (rule floor_one_plus [OF a1 a2])
  finally show ?thesis by (simp add: l mult.commute)
qed

lemma shift_nonneg:
  "1 \<le> k \<Longrightarrow> 0 \<le> (\<Sum>l\<leftarrow>ls. (k - 1) * k ^ nat (layer_i l))" for k :: int
  by (induction ls) simp_all

lemma output_lengths_loop:
  assumes pad: "net_pad_input net = 0" and k: "1 \<le> net_kernel_size net"
  shows "\<forall>l\<in>set ls. \<exists>j. l = new_layer net (int j) \<Longrightarrow>
     (\<Sum>l\<leftarrow>ls. (net_kernel_size net - 1) * net_kernel_size net ^ nat (layer_i l)) + 1 \<le> m \<Longrightarrow>
     m \<le> 2 ^ 53 \<Longrightarrow>
     for_loop (\<lambda>layer (out_length, lengths).
               case output_length layer out_length of
                 Inl e \<Rightarrow> Inl e
               | Inr out \<Rightarrow> Inr (out, lengths @ [out])) ls (m, acc)
       = Inr (m - (\<Sum>l\<leftarrow>ls. (net_kernel_size net - 1) * net_kernel_size net ^ nat (layer_i l)),
              acc @ shortened (net_kernel_size net) m ls)"
proof (induction ls arbitrary: m acc)
  case Nil
  show ?case by simp
next
  case (Cons l ls)
  let ?k = "net_kernel_size net"
  let ?s = "(?k - 1) * ?k ^ nat (layer_i l)"
  let ?rest = "\<Sum>l\<leftarrow>ls. (?k - 1) * ?k ^ nat (layer_i l)"
  obtain j where l: "l = new_layer net (int j)" using Cons.prems(1) by auto
  have rest0: "0 \<le> ?rest" by (rule shift_nonneg [OF k])
  have s0: "0 \<le> ?s" using k by simp
  have lo: "(?k - 1) * ?k ^ j + 1 \<le> m"
    using Cons.prems(2) rest0 by (simp add: l)
  have out: "output_length l m = Inr (m - ?s)"
    by (rule output_length_exact [OF l pad lo Cons.prems(3) k])
  have built: "\<forall>l\<in>set ls. \<exists>j. l = new_layer net (int j)" using Cons.prems(1) by simp
  have lo': "?rest + 1 \<le> m - ?s" using Cons.prems(2) by simp
  have hi': "m - ?s \<le> 2 ^ 53" using Cons.prems(3) s0 by linarith
  show ?case
    using Cons.IH [OF built lo' hi', of "acc @ [m - ?s]"] out
    by (simp add: algebra_simps)
qed

lemma length_shortened: "length (shortened k m ls) = length ls"
  by (induction ls arbitrary: m) simp_all

lemma shortened_Nil_iff: "shortened k m ls = [] \<longleftrightarrow> ls = []"
  by (cases ls) simp_all

lemma last_shortened:
  "ls \<noteq> [] \<Longrightarrow> last (shortened k m ls) = m - (\<Sum>l\<leftarrow>ls. (k - 1) * k ^ nat (layer_i l))"
proof (induction ls arbitrary: m)
  case Nil
  then show ?case by simp
next
  case (Cons l ls)
  show ?case
  proof (cases "ls = []")
    case True
    then show ?thesis by simp
  next
    case False
    have "last (shortened k m (l # ls)) = last (shortened k (m - (k - 1) * k ^ nat (layer_i l)) ls)"
      using False by (simp add: shortened_Nil_iff)
    also have "\<dots> = m - (k - 1) * k ^ nat (layer_i l)
        - (\<Sum>l\<leftarrow>ls. (k - 1) * k ^ nat (layer_i l))"
      by (rule Cons.IH [OF False])
    finally show ?thesis by simp
  qed
qed

lemma nth_shortened:
  "j < length ls \<Longrightarrow>
   shortened k m ls ! j = (m # shortened k m ls) ! j - (k - 1) * k ^ nat (layer_i (ls ! j))"
proof (induction ls arbitrary: m j)
  case Nil
  then show ?case by simp
next
  case (Cons l ls)
  then show ?case by (cases j) simp_all
qed

lemma nth_shortened_bounds:
  assumes "1 \<le> k" "j < length ls"
  shows "m - (\<Sum>l\<leftarrow>ls. (k - 1) * k ^ nat (layer_i l)) \<le> shortened k m ls ! j
        \<and> (m # shortened k m ls) ! j \<le> m"
  using assms(2)
proof (induction ls arbitrary: m j)
  case Nil
  then show ?case by simp
next
  case (Cons l ls)
  have s0: "0 \<le> (k - 1) * k ^ nat (layer_i l)" using assms(1) by simp
  have r0: "0 \<le> (\<Sum>l\<leftarrow>ls. (k - 1) * k ^ nat (layer_i l))" by (rule shift_nonneg [OF assms(1)])
  show ?case
  proof (cases j)
    case 0
    then show ?thesis using r0 by simp
  next
    case (Suc i)
    then have "i < length ls" using Cons.prems by simp
    from Cons.IH [OF this, of "m - (k - 1) * k ^ nat (layer_i l)"]
    show ?thesis using Suc s0 by (cases i) (simp_all add: algebra_simps)
  qed
qed

lemma round_double_tie: "round_double 9007199254740993 = Fin 9007199254740992"
proof -
  have b: "bitlen (2 ^ 53 + 1) = 54"
    using bitlen_twopow_add_eq [of 1 53] by simp
  have "ilog2 (of_int (2 ^ 53 + 1)) = 53"
    using ilog2_int [of "2 ^ 53 + 1"] b by simp
  then have e: "ilog2 9007199254740993 = 53" by simp
  have u: "max (ilog2 \<bar>9007199254740993\<bar> - 52) (- 1074) = 1" by (simp add: e)
  have m: "\<bar>9007199254740993 :: rat\<bar> / 2 powi 1 = 9007199254740993 / 2" by simp
  have fl: "\<lfloor>9007199254740993 / 2 :: rat\<rfloor> = 4503599627370496"
    by (rule floor_unique) simp_all
  show ?thesis
    unfolding round_double_def Let_def u m fl by simp
qed

lemma output_length_tie:
  "output_length (new_layer one_layer_net 0) 9007199254740995 = Inr 9007199254740992"
proof -
  have d: "dilation (new_layer one_layer_net 0) = Inr (PyInt 1)"
    using dilation_new_layer [of one_layer_net 0] by simp
  have q: "int_truediv 9007199254740993 1 = Inr (Fin 9007199254740992)"
    by (simp add: int_truediv_def round_double_tie)
  have a: "fadd (Fin 1) (Fin 9007199254740992) = Fin 9007199254740992"
    by (simp add: round_double_tie)
  have k: "net_kernel_size one_layer_net = 2" and p: "net_pad_input one_layer_net = 0"
    by (simp_all add: one_layer_net_def)
  show ?thesis
    by (simp add: output_length_def d k p q round_double_tie)
qed


text \<open>
  Claim C6, amended. Take a network with \<open>pad_input = 0\<close> (so every layer has \<open>pad_input\<close> 0
  and stride 1), a kernel size of at least 1 and at least one layer, and an input length
  \<open>n\<close> from the receptive field up to \<open>2 ^ 53\<close>. Then \<open>all_output_lengths(n)\<close> returns one
  length for every layer; each layer's \<open>output_length\<close> shortens its input (\<open>n\<close> for the
  first layer, the length before it for the others) by \<open>(kernel_size - 1) * dilation\<close>;
  and the last length is \<open>n - receptive_field + 1\<close>.
\<close>

theorem output_lengths_shorten:
  assumes pad: "net_pad_input net = 0" and k: "1 \<le> net_kernel_size net"
    and layer: "\<exists>b\<in>set (n_layers net). 0 < b"
    and post: "post_init net = Inr (PyInt rf, sh)"
    and lo: "rf \<le> n" and hi: "n \<le> 2 ^ 53"
  shows "\<exists>lens. all_output_lengths net n = Inr lens \<and> length lens = length (layers_of net) \<and>
     (\<forall>j<length lens. \<exists>d. dilation (layers_of net ! j) = Inr (PyInt d) \<and>
        output_length (layers_of net ! j) ((n # lens) ! j) =
          Inr ((n # lens) ! j - (net_kernel_size net - 1) * d) \<and>
        lens ! j = (n # lens) ! j - (net_kernel_size net - 1) * d) \<and>
     last lens = n - rf + 1"
proof -
  let ?k = "net_kernel_size net"
  let ?ls = "layers_of net"
  let ?S = "\<Sum>l\<leftarrow>?ls. (?k - 1) * ?k ^ nat (layer_i l)"
  let ?lens = "shortened ?k n ?ls"
  have ne: "?ls \<noteq> []"
    using layer by (fastforce simp: layers_of_Nil_iff)
  have S: "?S = geo ?k (n_layers net)"
    using geo_layers [of net "n_layers net"] by (simp add: layers_of_blocks)
  have rf: "rf = 1 + ?S"
    using post ne pad by (simp add: post_init_def receptive_field_loop_built shift_sum_built S)
  have built: "\<forall>l\<in>set ?ls. \<exists>j. l = new_layer net (int j)"
    using blocks_layer by (auto simp: layers_of_blocks)
  have lo': "?S + 1 \<le> n" using lo rf by simp
  have all: "all_output_lengths net n = Inr ?lens"
    using output_lengths_loop [OF pad k built lo' hi, of "[]"]
    by (simp add: all_output_lengths_def)
  have len: "length ?lens = length ?ls" by (rule length_shortened)
  have last: "last ?lens = n - rf + 1"
    using last_shortened [OF ne, of ?k n] rf by simp
  have each: "\<exists>d. dilation (?ls ! j) = Inr (PyInt d) \<and>
        output_length (?ls ! j) ((n # ?lens) ! j) = Inr ((n # ?lens) ! j - (?k - 1) * d) \<and>
        ?lens ! j = (n # ?lens) ! j - (?k - 1) * d" if j: "j < length ?lens" for j
  proof -
    have j': "j < length ?ls" using j len by simp
    then have mem: "?ls ! j \<in> set ?ls" by simp
    then obtain i where i: "?ls ! j = new_layer net (int i)" using built by blast
    have d: "dilation (?ls ! j) = Inr (PyInt (?k ^ nat (layer_i (?ls ! j))))"
      by (simp add: i dilation_new_layer)
    have nth: "?lens ! j = (n # ?lens) ! j - (?k - 1) * ?k ^ nat (layer_i (?ls ! j))"
      by (rule nth_shortened [OF j'])
    have b: "n - ?S \<le> ?lens ! j \<and> (n # ?lens) ! j \<le> n"
      by (rule nth_shortened_bounds [OF k j'])
    have lo_j: "(?k - 1) * ?k ^ i + 1 \<le> (n # ?lens) ! j"
      using b nth lo' by (simp add: i)
    have hi_j: "(n # ?lens) ! j \<le> 2 ^ 53" using b hi by linarith
    have "output_length (?ls ! j) ((n # ?lens) ! j) =
        Inr ((n # ?lens) ! j - (?k - 1) * ?k ^ nat (layer_i (?ls ! j)))"
      by (rule output_length_exact [OF i pad lo_j hi_j k])
    with d nth show ?thesis by simp
  qed
  show ?thesis
    using all len last each by blast
qed


theorem output_lengths_shorten_witness:
  "post_init three_block_net = Inr (PyInt 11, PyInt 11) \<and>
   (\<exists>lens. all_output_lengths three_block_net 20 = Inr lens \<and> length lens = 5 \<and> last lens = 10)"
proof -
  have pad: "net_pad_input three_block_net = 0" by (simp add: three_block_net_def)
  have k: "1 \<le> net_kernel_size three_block_net" by (simp add: three_block_net_def)
  have layer: "\<exists>b\<in>set (n_layers three_block_net). 0 < b" by (simp add: three_block_net_def)
  have post: "post_init three_block_net = Inr (PyInt 11, PyInt 11)"
    by (simp add: post_init_def receptive_field_loop_built shift_sum_built layers_of_Nil_iff
        three_block_net_def)
  have ls: "length (layers_of three_block_net) = 5"
    by (simp add: layers_of_def py_range_def three_block_net_def)
  from output_lengths_shorten [OF pad k layer post, of 20] obtain lens where
    "all_output_lengths three_block_net 20 = Inr lens"
    "length lens = length (layers_of three_block_net)"
    "last lens = 20 - 11 + 1"
    by auto
  then show ?thesis using post ls by simp
qed

text \<open>
  \<open>output_length\<close> divides by the stride with \<open>/\<close> and so computes in double precision.
  Above \<open>2 ^ 53\<close> not every integer is a double: a single layer with kernel size 2 and the
  input length \<open>2 ^ 53 + 3\<close> has the numerator \<open>2 ^ 53 + 1\<close>, which rounds to \<open>2 ^ 53\<close>, and
  so does \<open>1 + 2 ^ 53\<close>. The length returned is \<open>2 ^ 53\<close>, not \<open>n - 2 + 1 = 2 ^ 53 + 2\<close>.
\<close>

theorem output_length_rounds_above_2_53:
  "post_init one_layer_net = Inr (PyInt 2, PyInt 2) \<and>
   all_output_lengths one_layer_net 9007199254740995 = Inr [9007199254740992] \<and>
   9007199254740995 - 2 + 1 \<noteq> (9007199254740992 :: int)"
proof -
  have ls: "layers_of one_layer_net = [new_layer one_layer_net 0]"
    by (simp add: layers_of_def one_layer_net_def py_range_def)
  have p: "post_init one_layer_net = Inr (PyInt 2, PyInt 2)"
    by (simp add: post_init_def receptive_field_loop_built shift_sum_built layers_of_Nil_iff
        one_layer_net_def)
  have "all_output_lengths one_layer_net 9007199254740995 = Inr [9007199254740992]"
    by (simp add: all_output_lengths_def ls output_length_tie)
  with p show ?thesis by simp
qed


section \<open>DBDataset.hparams\<close>

lemma fold_update_map_of:
  "fold (\<lambda>(k, v) d. d(f k \<mapsto> v)) items d0 = d0 ++ map_of (rev (map (\<lambda>(k, v). (f k, v)) items))"
proof (induction items arbitrary: d0)
  case Nil
  show ?case by simp
next
  case (Cons kv items)
  obtain k v where kv: "kv = (k, v)" by (cases kv)
  let ?M = "map_of (rev (map (\<lambda>(k, v). (f k, v)) items))"
  have "fold (\<lambda>(k, v) d. d(f k \<mapsto> v)) (kv # items) d0 = d0(f k \<mapsto> v) ++ ?M"
    using Cons.IH [of "d0(f k \<mapsto> v)"] by (simp only: kv fold_simps prod.case comp_def)
  also have "d0(f k \<mapsto> v) = d0 ++ [f k \<mapsto> v]" by simp
  also have "d0 ++ [f k \<mapsto> v] ++ ?M = d0 ++ ([f k \<mapsto> v] ++ ?M)" by (simp only: map_add_assoc)
  also have "[f k \<mapsto> v] ++ ?M = map_of (rev (map (\<lambda>(k, v). (f k, v)) (kv # items)))"
    by (simp add: kv)
  finally show ?case .
qed

lemma this_feat_map_of:
  "this_feat feat items = map_of (rev (map (\<lambda>(k, v). (feat @ ''_'' @ k, v)) items))"
  using fold_update_map_of [of "\<lambda>k. feat @ ''_'' @ k" items Map.empty]
  by (simp add: this_feat_def)

lemma fold_hparams:
  "fold (\<lambda>feat params. params ++ this_feat feat (attrs feat)) features p0 =
     p0 ++ map_of (rev (composed features attrs))"
proof (induction features arbitrary: p0)
  case Nil
  show ?case by (simp add: composed_def)
next
  case (Cons feat features)
  show ?case
    using Cons.IH [of "p0 ++ this_feat feat (attrs feat)"]
    by (simp add: composed_def this_feat_map_of)
qed

lemma hparams_map_of: "hparams features attrs = map_of (rev (composed features attrs))"
  using fold_hparams [of attrs features Map.empty] by (simp add: hparams_def)

lemma composed_iff:
  "(key, v) \<in> set (composed features attrs) \<longleftrightarrow>
     (\<exists>f k. f \<in> set features \<and> (k, v) \<in> set (attrs f) \<and> key = f @ ''_'' @ k)"
  by (auto simp: composed_def)


lemma fst_composed:
  "fst ` set (composed features attrs) =
     {f @ ''_'' @ k | f k. f \<in> set features \<and> k \<in> fst ` set (attrs f)}"
proof (rule set_eqI)
  fix key
  have "key \<in> fst ` set (composed features attrs) \<longleftrightarrow>
      (\<exists>v. (key, v) \<in> set (composed features attrs))"
    by force
  also have "\<dots> \<longleftrightarrow> (\<exists>v f k. f \<in> set features \<and> (k, v) \<in> set (attrs f) \<and> key = f @ ''_'' @ k)"
    by (simp only: composed_iff)
  also have "\<dots> \<longleftrightarrow> (\<exists>f k. f \<in> set features \<and> (\<exists>v. (k, v) \<in> set (attrs f)) \<and> key = f @ ''_'' @ k)"
    by blast
  also have "\<dots> \<longleftrightarrow> (\<exists>f k. f \<in> set features \<and> k \<in> fst ` set (attrs f) \<and> key = f @ ''_'' @ k)"
    by force
  finally show "key \<in> fst ` set (composed features attrs) \<longleftrightarrow>
      key \<in> {f @ ''_'' @ k | f k. f \<in> set features \<and> k \<in> fst ` set (attrs f)}"
    by blast
qed

lemma hparams_value:
  assumes f: "f \<in> set features" and kv: "(k, v) \<in> set (attrs f)"
    and same: "\<And>f' k' v'. f' \<in> set features \<Longrightarrow> (k', v') \<in> set (attrs f') \<Longrightarrow>
           f' @ ''_'' @ k' = f @ ''_'' @ k \<Longrightarrow> v' = v"
  shows "hparams features attrs (f @ ''_'' @ k) = Some v"
proof -
  let ?key = "f @ ''_'' @ k"
  have "(?key, v) \<in> set (composed features attrs)"
    using f kv composed_iff [of ?key v features attrs] by blast
  then have "?key \<in> fst ` set (rev (composed features attrs))"
    by force
  then have "?key \<in> dom (map_of (rev (composed features attrs)))"
    by (simp only: dom_map_of_conv_image_fst)
  then obtain v' where v': "map_of (rev (composed features attrs)) ?key = Some v'"
    by blast
  then have "(?key, v') \<in> set (rev (composed features attrs))"
    by (rule map_of_SomeD)
  then have "(?key, v') \<in> set (composed features attrs)" by simp
  then obtain f' k' where "f' \<in> set features" "(k', v') \<in> set (attrs f')" "?key = f' @ ''_'' @ k'"
    using composed_iff [of ?key v' features attrs] by blast
  then have "v' = v" using same [of f' k' v'] by simp
  with v' show ?thesis by (simp only: hparams_map_of)
qed


lemma composed_append:
  "composed (pre @ post) attrs = composed pre attrs @ composed post attrs"
  by (simp add: composed_def)

lemma map_of_composed_key:
  "map_of (map (\<lambda>(k, v). (f @ ''_'' @ k, v)) items) (f @ ''_'' @ k) = map_of items k"
  by (induction items) auto

lemma hparams_last_feature:
  assumes feats: "features = pre @ f # post"
    and kv: "map_of (rev (attrs f)) k = Some v"
    and later: "\<And>f' k'. f' \<in> set post \<Longrightarrow> k' \<in> fst ` set (attrs f') \<Longrightarrow>
           f' @ ''_'' @ k' \<noteq> f @ ''_'' @ k"
  shows "hparams features attrs (f @ ''_'' @ k) = Some v"
proof -
  let ?key = "f @ ''_'' @ k"
  let ?own = "map (\<lambda>(k, v). (f @ ''_'' @ k, v)) (attrs f)"
  have split: "composed features attrs = composed pre attrs @ ?own @ composed post attrs"
    using composed_append [of pre "f # post" attrs] by (simp add: feats composed_def)
  have "?key \<notin> fst ` set (composed post attrs)"
  proof
    assume "?key \<in> fst ` set (composed post attrs)"
    then obtain f' k' where "f' \<in> set post" "k' \<in> fst ` set (attrs f')"
      "?key = f' @ ''_'' @ k'"
      unfolding fst_composed by blast
    then show False using later [of f' k'] by simp
  qed
  then have post: "map_of (rev (composed post attrs)) ?key = None"
    by (simp add: map_of_eq_None_iff)
  have own: "map_of (rev ?own) ?key = Some v"
    using map_of_composed_key [of f "rev (attrs f)" k] kv by (simp add: rev_map)
  show ?thesis
    using post own by (simp add: hparams_map_of split map_add_def)
qed


text \<open>
  Claim C9, amended. The keys of \<open>hparams\<close> are exactly the strings \<open>f + "_" + k\<close> for a
  feature name \<open>f\<close> in \<open>self.features\<close> and an attribute key \<open>k\<close> stored on that feature.
  Such a key is mapped to that attribute's value whenever every pair of a feature and a
  key that composes the same string carries the same value. In every case the string is
  mapped to the value of the last feature that composes it: if \<open>f\<close> stands in
  \<open>self.features\<close> between \<open>pre\<close> and \<open>post\<close>, holds \<open>v\<close> under \<open>k\<close>, and no feature of \<open>post\<close>
  composes \<open>f + "_" + k\<close>, then \<open>hparams\<close> maps that string to \<open>v\<close>. (\<open>map_of (rev items) k\<close>
  is the value that the items of a dictionary hold under \<open>k\<close>.)
\<close>

theorem hparams_composed_names:
  "dom (hparams features attrs) =
     {f @ ''_'' @ k | f k. f \<in> set features \<and> k \<in> fst ` set (attrs f)} \<and>
   (\<forall>f k v. f \<in> set features \<and> (k, v) \<in> set (attrs f) \<and>
      (\<forall>f' k' v'. f' \<in> set features \<and> (k', v') \<in> set (attrs f') \<and>
           f' @ ''_'' @ k' = f @ ''_'' @ k \<longrightarrow> v' = v) \<longrightarrow>
      hparams features attrs (f @ ''_'' @ k) = Some v) \<and>
   (\<forall>pre f post k v. features = pre @ f # post \<and> map_of (rev (attrs f)) k = Some v \<and>
      (\<forall>f' k'. f' \<in> set post \<and> k' \<in> fst ` set (attrs f') \<longrightarrow>
           f' @ ''_'' @ k' \<noteq> f @ ''_'' @ k) \<longrightarrow>
      hparams features attrs (f @ ''_'' @ k) = Some v)"
proof (intro conjI allI impI)
  fix pre f post k v
  assume a: "features = pre @ f # post \<and> map_of (rev (attrs f)) k = Some v \<and>
      (\<forall>f' k'. f' \<in> set post \<and> k' \<in> fst ` set (attrs f') \<longrightarrow>
           f' @ ''_'' @ k' \<noteq> f @ ''_'' @ k)"
  show "hparams features attrs (f @ ''_'' @ k) = Some v"
  proof (rule hparams_last_feature)
    show "features = pre @ f # post" using a by blast
    show "map_of (rev (attrs f)) k = Some v" using a by blast
    show "f' @ ''_'' @ k' \<noteq> f @ ''_'' @ k"
      if "f' \<in> set post" "k' \<in> fst ` set (attrs f')" for f' k'
      using a that by blast
  qed
next
  have "dom (hparams features attrs) = fst ` set (composed features attrs)"
    by (simp add: hparams_map_of dom_map_of_conv_image_fst)
  then show "dom (hparams features attrs) =
     {f @ ''_'' @ k | f k. f \<in> set features \<and> k \<in> fst ` set (attrs f)}"
    by (simp only: fst_composed)
next
  fix f k v
  assume a: "f \<in> set features \<and> (k, v) \<in> set (attrs f) \<and>
      (\<forall>f' k' v'. f' \<in> set features \<and> (k', v') \<in> set (attrs f') \<and>
           f' @ ''_'' @ k' = f @ ''_'' @ k \<longrightarrow> v' = v)"
  show "hparams features attrs (f @ ''_'' @ k) = Some v"
  proof (rule hparams_value)
    show "f \<in> set features" using a by blast
    show "(k, v) \<in> set (attrs f)" using a by blast
    show "v' = v" if "f' \<in> set features" "(k', v') \<in> set (attrs f')"
      "f' @ ''_'' @ k' = f @ ''_'' @ k" for f' k' v'
      using a that by blast
  qed
qed


theorem hparams_composed_names_witness:
  "hparams [''x'', ''y''] distinct_features ''x_sr'' = Some 1 \<and>
   hparams [''a'', ''a_b''] two_features ''a_b_c'' = Some 2"
proof -
  have "''x'' \<in> set [''x'', ''y''] \<and> (''sr'', 1) \<in> set (distinct_features ''x'') \<and>
      (\<forall>f' k' v'. f' \<in> set [''x'', ''y''] \<and> (k', v') \<in> set (distinct_features f') \<and>
           f' @ ''_'' @ k' = ''x'' @ ''_'' @ ''sr'' \<longrightarrow> v' = 1)"
    by (auto simp: distinct_features_def)
  then have "hparams [''x'', ''y''] distinct_features (''x'' @ ''_'' @ ''sr'') = Some 1"
    using hparams_composed_names [of "[''x'', ''y'']" distinct_features] by blast
  then have first: "hparams [''x'', ''y''] distinct_features ''x_sr'' = Some 1" by simp
  have "[''a'', ''a_b''] = [''a''] @ ''a_b'' # [] \<and>
      map_of (rev (two_features ''a_b'')) ''c'' = Some 2 \<and>
      (\<forall>f' k'. f' \<in> set [] \<and> k' \<in> fst ` set (two_features f') \<longrightarrow>
           f' @ ''_'' @ k' \<noteq> ''a_b'' @ ''_'' @ ''c'')"
    by (simp add: two_features_def)
  then have "hparams [''a'', ''a_b''] two_features (''a_b'' @ ''_'' @ ''c'') = Some 2"
    using hparams_composed_names [of "[''a'', ''a_b'']" two_features] by blast
  then have "hparams [''a'', ''a_b''] two_features ''a_b_c'' = Some 2" by simp
  with first show ?thesis by simp
qed

text \<open>
  Two pairs can compose one string: feature \<open>a\<close> with key \<open>b_c\<close> and feature \<open>a_b\<close> with key
  \<open>c\<close>. \<open>params.update\<close> lets the later feature win, so \<open>a_b_c\<close> is mapped to \<open>2\<close> and not
  to the value \<open>1\<close> stored under \<open>b_c\<close> on \<open>a\<close>.
\<close>

theorem hparams_later_feature_wins:
  "''a'' \<in> set [''a'', ''a_b''] \<and> (''b_c'', 1) \<in> set (two_features ''a'') \<and>
   hparams [''a'', ''a_b''] two_features (''a'' @ ''_'' @ ''b_c'') = Some 2"
  by (simp add: hparams_def this_feat_def two_features_def)


section \<open>DBDataset.split\<close>

lemma length_filter_zip:
  "length is = length xs \<Longrightarrow>
   length (filter (\<lambda>(i, x). P x) (zip is xs)) = length (filter P xs)"
  by (induction "is" xs rule: list_induct2) simp_all


lemma present_simps [simp]:
  "present [] = []"
  "present (None # xs) = present xs"
  "present (Some x # xs) = x # present xs"
  by (simp_all add: present_def)

lemma length_present: "length (present xs) = length (filter (\<lambda>x. x \<noteq> None) xs)"
  by (simp add: present_def)

lemma comprehension_InrD:
  "comprehension f xs = Inr ys \<Longrightarrow>
     length ys = length xs \<and> (\<forall>i<length xs. f (xs ! i) = Inr (ys ! i))"
proof (induction xs arbitrary: ys)
  case Nil
  then show ?case by simp
next
  case (Cons x xs)
  from Cons.prems obtain y ys' where y: "f x = Inr y" and r: "comprehension f xs = Inr ys'"
    and ys: "ys = y # ys'"
    by (auto split: sum.splits)
  from Cons.IH [OF r] show ?case
    using y ys by (auto simp: nth_Cons split: nat.splits)
qed

lemma comprehension_InrI:
  "length ys = length xs \<Longrightarrow> (\<forall>i<length xs. f (xs ! i) = Inr (ys ! i)) \<Longrightarrow>
   comprehension f xs = Inr ys"
proof (induction xs arbitrary: ys)
  case Nil
  then show ?case by simp
next
  case (Cons x xs)
  from Cons.prems(1) obtain y ys' where ys: "ys = y # ys'" and len: "length ys' = length xs"
    by (cases ys) auto
  have y: "f x = Inr y" using Cons.prems(2) ys by auto
  have "\<forall>i<length xs. f (xs ! i) = Inr (ys' ! i)"
    using Cons.prems(2) ys by auto
  from Cons.IH [OF len this] show ?case using y ys by simp
qed

lemma comprehension_Inr_iff:
  "comprehension f xs = Inr ys \<longleftrightarrow>
     length ys = length xs \<and> (\<forall>i<length xs. f (xs ! i) = Inr (ys ! i))"
  using comprehension_InrD comprehension_InrI by blast

lemma comprehension_length:
  "comprehension f xs = Inr ys \<Longrightarrow> length ys = length xs"
  by (simp add: comprehension_Inr_iff)

lemma float_lengths_length:
  assumes "float_lengths N fs = Inr counts" "fs \<noteq> []"
  shows "length counts = length fs"
proof -
  from assms(1) obtain props cs where p: "normalized fs = Inr props"
    and c: "as_ints N props = Inr cs" and counts: "counts = cs @ [int N - sum_list cs]"
    by (auto simp: float_lengths_def split: sum.splits if_splits)
  have "length props = length fs" using p by (simp add: normalized_def comprehension_length)
  moreover have "length cs = length (butlast props)"
    using c by (simp add: as_ints_def comprehension_length)
  ultimately show ?thesis using assms(2) counts by simp
qed

lemma nones_indices:
  "i \<in> set (map fst (filter (\<lambda>(i, x). x = None) (zip [0..<length sp] sp))) \<longleftrightarrow>
     i < length sp \<and> sp ! i = None"
  by (force simp: set_zip)

lemma split_lengths_shape:
  assumes ok: "split_lengths N sp = Inr (nones, lengths)"
    and ne: "sp \<noteq> []" and hd: "hd sp \<noteq> None"
  shows "length lengths = length (filter (\<lambda>x. x \<noteq> None) sp)"
    and "\<forall>i<length sp. (i \<in> set nones) = (sp ! i = None)"
    and "list_ex (\<lambda>i. i \<noteq> 0) nones \<longleftrightarrow> list_ex (\<lambda>x. x = None) sp"
proof -
  let ?xs = "present sp"
  have xs_ne: "?xs \<noteq> []"
    using ne hd by (cases sp) auto
  have nones: "nones = (if list_ex (\<lambda>x. x = None) sp
       then map fst (filter (\<lambda>(i, x). x = None) (zip [0..<length sp] sp)) else [])"
    using ok hd by (auto simp: split_lengths_def Let_def split: if_splits sum.splits)
  show "length lengths = length (filter (\<lambda>x. x \<noteq> None) sp)"
  proof (cases "list_all is_float ?xs")
    case True
    then obtain counts where c: "float_lengths N (map the_float ?xs) = Inr counts"
      and l: "lengths = map PyInt counts"
      using ok hd by (auto simp: split_lengths_def Let_def split: if_splits sum.splits)
    have "length counts = length (map the_float ?xs)"
      by (rule float_lengths_length [OF c]) (use xs_ne in simp)
    then show ?thesis using l by (simp add: length_present)
  next
    case False
    then have "lengths = ?xs"
      using ok hd by (auto simp: split_lengths_def Let_def split: if_splits sum.splits)
    then show ?thesis by (simp add: length_present)
  qed
  show idx: "\<forall>i<length sp. (i \<in> set nones) = (sp ! i = None)"
  proof (cases "list_ex (\<lambda>x. x = None) sp")
    case True
    then show ?thesis using nones nones_indices [of _ sp] by simp
  next
    case False
    then have "None \<notin> set sp" by (simp add: list_ex_iff)
    then have "\<forall>i<length sp. sp ! i \<noteq> None" by (metis nth_mem)
    then show ?thesis using nones False by simp
  qed
  show "list_ex (\<lambda>i. i \<noteq> 0) nones \<longleftrightarrow> list_ex (\<lambda>x. x = None) sp"
  proof
    assume "list_ex (\<lambda>i. i \<noteq> 0) nones"
    then show "list_ex (\<lambda>x. x = None) sp"
      using nones by (auto split: if_splits)
  next
    assume a: "list_ex (\<lambda>x. x = None) sp"
    then obtain i where i: "i < length sp" "sp ! i = None"
      by (auto simp: list_ex_iff in_set_conv_nth)
    have "sp ! 0 \<noteq> None" using hd ne by (simp add: hd_conv_nth)
    then have "i \<noteq> 0" using i(2) by (metis)
    moreover have "i \<in> set nones" using idx i by simp
    ultimately show "list_ex (\<lambda>i. i \<noteq> 0) nones" by (auto simp: list_ex_iff)
  qed
qed

lemma fill_nones_interleave:
  "\<forall>i<length xs. (k + i \<in> set nones) = (xs ! i = None) \<Longrightarrow>
   length sets = length (filter (\<lambda>x. x \<noteq> None) xs) \<Longrightarrow>
   fill_nones nones sets [k..<k + length xs] = Inr (interleave xs sets)"
proof (induction xs arbitrary: k sets)
  case Nil
  show ?case by simp
next
  case (Cons x xs)
  have upt: "[k..<k + length (x # xs)] = k # [Suc k..<Suc k + length xs]"
    using upt_conv_Cons [of k "k + length (x # xs)"] by simp
  have head: "(k \<in> set nones) = (x = None)" using Cons.prems(1) by force
  have rest: "\<forall>i<length xs. (Suc k + i \<in> set nones) = (xs ! i = None)"
  proof (intro allI impI)
    fix i assume "i < length xs"
    then have "(k + Suc i \<in> set nones) = ((x # xs) ! Suc i = None)"
      using Cons.prems(1) by (metis Suc_less_eq length_Cons)
    then show "(Suc k + i \<in> set nones) = (xs ! i = None)" by simp
  qed
  show ?case
  proof (cases x)
    case None
    then have "length sets = length (filter (\<lambda>x. x \<noteq> None) xs)" using Cons.prems(2) by simp
    from Cons.IH [OF rest this] show ?thesis
      unfolding upt using None head by simp
  next
    case (Some a)
    then obtain s sets' where sets: "sets = s # sets'"
      and len: "length sets' = length (filter (\<lambda>x. x \<noteq> None) xs)"
      using Cons.prems(2) by (cases sets) auto
    from Cons.IH [OF rest len] show ?thesis
      unfolding upt using Some head sets by simp
  qed
qed

lemma interleave_props:
  "length sets = length (filter (\<lambda>x. x \<noteq> None) xs) \<Longrightarrow>
   length (interleave xs sets) = length xs \<and>
   (\<forall>i<length xs. (interleave xs sets ! i = None) = (xs ! i = None)) \<and>
   map the (filter (\<lambda>x. x \<noteq> None) (interleave xs sets)) = sets"
proof (induction xs sets rule: interleave.induct)
  case (1 sets)
  then show ?case by simp
next
  case (2 xs sets)
  then show ?case by (auto simp: nth_Cons split: nat.splits)
next
  case (3 x xs)
  then show ?case by simp
next
  case (4 x xs s sets)
  then show ?case by (auto simp: nth_Cons split: nat.splits)
qed

text \<open>
  Claim C3, amended. Take a \<open>splits\<close> sequence that has a first element, which is not
  \<open>None\<close>, and on which \<open>split\<close> does not raise: the lengths are computed and \<open>random_split\<close>
  returns one subset for each length. Then \<open>split\<close> returns a tuple as long as \<open>splits\<close>, with
  \<open>None\<close> exactly where \<open>splits\<close> has \<open>None\<close>, and the other positions hold the drawn subsets
  in their order.
\<close>

theorem split_shape:
  assumes ne: "sp \<noteq> []" and hd: "hd sp \<noteq> None"
    and lens: "split_lengths N sp = Inr (nones, lengths)"
    and rs: "draw lengths = Inr sets"
    and one_each: "length sets = length lengths"
  shows "\<exists>result. split draw N sp = Inr result \<and>
     length result = length sp \<and>
     (\<forall>i<length sp. (result ! i = None) = (sp ! i = None)) \<and>
     map the (filter (\<lambda>x. x \<noteq> None) result) = sets"
proof -
  note shape = split_lengths_shape [OF lens ne hd]
  have len: "length sets = length (filter (\<lambda>x. x \<noteq> None) sp)"
    using one_each shape(1) by simp
  show ?thesis
  proof (cases "list_ex (\<lambda>x. x = None) sp")
    case True
    have cnt: "length sets + length nones = length sp"
    proof -
      have "nones = map fst (filter (\<lambda>(i, x). x = None) (zip [0..<length sp] sp))"
        using lens hd True by (auto simp: split_lengths_def Let_def split: if_splits sum.splits)
      then have "length nones = length (filter (\<lambda>(i, x). x = None) (zip [0..<length sp] sp))"
        by simp
      also have "\<dots> = length (filter (\<lambda>x. x = None) sp)"
        by (rule length_filter_zip) simp
      finally have "length nones = length (filter (\<lambda>x. x = None) sp)" .
      moreover have "length (filter (\<lambda>x. x \<noteq> None) sp) + length (filter (\<lambda>x. x = None) sp)
          = length sp"
        using sum_length_filter_compl [of "\<lambda>x. x \<noteq> None" sp] by simp
      ultimately show ?thesis using len by simp
    qed
    have idx: "\<forall>i<length sp. (0 + i \<in> set nones) = (sp ! i = None)"
      using shape(2) by simp
    have "fill_nones nones sets [0..<0 + length sp] = Inr (interleave sp sets)"
      by (rule fill_nones_interleave [OF idx len])
    then have "split draw N sp = Inr (interleave sp sets)"
      using True shape(3) cnt by (simp add: split_def lens rs)
    then show ?thesis using interleave_props [OF len] by blast
  next
    case False
    then have none: "None \<notin> set sp" by (simp add: list_ex_iff)
    then have "\<forall>x\<in>set sp. x \<noteq> None" by metis
    then have all: "filter (\<lambda>x. x \<noteq> None) sp = sp" by (rule filter_True)
    have "split draw N sp = Inr (map Some sets)"
      using False shape(3) by (simp add: split_def lens rs)
    moreover have "length (map Some sets) = length sp" using len all by simp
    moreover have "\<forall>i<length sp. (map Some sets ! i = None) = (sp ! i = None)"
      using none len all by (metis nth_mem nth_map option.distinct(1))
    moreover have "map the (filter (\<lambda>x. x \<noteq> None) (map Some sets)) = sets"
      by (induction sets) simp_all
    ultimately show ?thesis by blast
  qed
qed


theorem split_shape_witness:
  "\<exists>result. split requested 4 train_none_test = Inr result \<and> length result = 3 \<and>
     (result ! 1 = None) = (train_none_test ! 1 = None) \<and>
     map the (filter (\<lambda>x. x \<noteq> None) result) = [PyInt 3, PyInt 1]"
proof -
  have ne: "train_none_test \<noteq> []" and hd: "hd train_none_test \<noteq> None"
    by (simp_all add: train_none_test_def)
  have lens: "split_lengths 4 train_none_test = Inr ([1], [PyInt 3, PyInt 1])"
    by (simp add: split_lengths_def train_none_test_def)
  have rs: "requested [PyInt 3, PyInt 1] = Inr [PyInt 3, PyInt 1]"
    by (simp add: requested_def)
  have l: "length train_none_test = 3" by (simp add: train_none_test_def)
  from split_shape [where draw = requested, OF ne hd lens rs] obtain result where
    "split requested 4 train_none_test = Inr result"
    "length result = length train_none_test"
    "\<forall>i<length train_none_test. (result ! i = None) = (train_none_test ! i = None)"
    "map the (filter (\<lambda>x. x \<noteq> None) result) = [PyInt 3, PyInt 1]"
    by auto
  then show ?thesis unfolding l by auto
qed


text \<open>
  A first element that is not \<open>None\<close> is not enough for \<open>split\<close> to return: for the
  proportions \<open>(1.0, None, 0.0)\<close> and four examples the first subset takes all four, the
  last count is zero and \<open>split\<close> raises.
\<close>

theorem split_raises_with_train_split:
  "hd one_none_zero \<noteq> None \<and> split requested 4 one_none_zero = Inl (ValueError last_split_zero)"
  by (simp add: one_none_zero_def split_def split_lengths_def float_lengths_def normalized_def
      as_ints_def int_times_def float_of_int_def float_sum_def)

lemma float_lengths_Inr_iff:
  "float_lengths N fs = Inr lens \<longleftrightarrow>
     (\<exists>props counts. normalized fs = Inr props \<and> as_ints N props = Inr counts \<and>
        int N - sum_list counts \<noteq> 0 \<and> lens = counts @ [int N - sum_list counts])"
  by (auto simp: float_lengths_def split: sum.splits if_splits)

lemma normalized_Inr_iff:
  "normalized fs = Inr props \<longleftrightarrow>
     length props = length fs \<and>
     (\<forall>i<length fs. float_truediv (fs ! i) (float_sum fs) = Inr (props ! i))"
  by (simp add: normalized_def comprehension_Inr_iff)

lemma as_ints_Inr_iff:
  "as_ints N props = Inr counts \<longleftrightarrow>
     length counts = length props - 1 \<and>
     (\<forall>i<length props - 1. int_times N (props ! i) = Inr (counts ! i))"
proof -
  have "(\<forall>i<length props - 1. int_times N (butlast props ! i) = Inr (counts ! i)) \<longleftrightarrow>
      (\<forall>i<length props - 1. int_times N (props ! i) = Inr (counts ! i))"
    by (simp add: nth_butlast)
  then show ?thesis
    by (simp add: as_ints_def comprehension_Inr_iff)
qed

text \<open>
  Claim C4, amended. Let the entries of \<open>splits\<close> that are not \<open>None\<close> all be floats. Then
  \<open>split\<close> reaches \<open>random_split\<close> exactly when the first element is not an absent one,
  every entry can be divided by the sum of the entries, every quotient but the last can
  be turned into the count \<open>int(N * x)\<close>, and \<open>N\<close> minus the sum of these counts is not
  zero; the lengths it hands to \<open>random_split\<close> are these counts followed by \<open>N\<close> minus
  their sum, and such lengths sum to \<open>N\<close>.
\<close>

theorem float_split_counts:
  assumes fs: "fs = map the_float (present sp)"
    and fl: "list_all is_float (present sp)"
  shows "((\<exists>nones. split_lengths N sp = Inr (nones, lengths)) \<longleftrightarrow>
      \<not> (list_ex (\<lambda>x. x = None) sp \<and> hd sp = None) \<and>
      (\<exists>props counts.
         length props = length fs \<and>
         (\<forall>i<length fs. float_truediv (fs ! i) (float_sum fs) = Inr (props ! i)) \<and>
         length counts = length fs - 1 \<and>
         (\<forall>i<length fs - 1. int_times N (props ! i) = Inr (counts ! i)) \<and>
         int N - sum_list counts \<noteq> 0 \<and>
         lengths = map PyInt (counts @ [int N - sum_list counts]))) \<and>
     (\<forall>counts. sum_list (counts @ [int N - sum_list counts]) = int N)"
proof
  have "(\<exists>nones. split_lengths N sp = Inr (nones, lengths)) \<longleftrightarrow>
      \<not> (list_ex (\<lambda>x. x = None) sp \<and> hd sp = None) \<and>
      (\<exists>lens. float_lengths N fs = Inr lens \<and> lengths = map PyInt lens)"
    using fl by (auto simp: split_lengths_def Let_def fs split: sum.splits)
  also have "(\<exists>lens. float_lengths N fs = Inr lens \<and> lengths = map PyInt lens) \<longleftrightarrow>
      (\<exists>props counts. normalized fs = Inr props \<and> as_ints N props = Inr counts \<and>
         int N - sum_list counts \<noteq> 0 \<and> lengths = map PyInt (counts @ [int N - sum_list counts]))"
    unfolding float_lengths_Inr_iff by blast
  also have "\<dots> \<longleftrightarrow>
      (\<exists>props counts.
         length props = length fs \<and>
         (\<forall>i<length fs. float_truediv (fs ! i) (float_sum fs) = Inr (props ! i)) \<and>
         length counts = length fs - 1 \<and>
         (\<forall>i<length fs - 1. int_times N (props ! i) = Inr (counts ! i)) \<and>
         int N - sum_list counts \<noteq> 0 \<and>
         lengths = map PyInt (counts @ [int N - sum_list counts]))"
    unfolding normalized_Inr_iff as_ints_Inr_iff by metis
  finally show "(\<exists>nones. split_lengths N sp = Inr (nones, lengths)) \<longleftrightarrow>
      \<not> (list_ex (\<lambda>x. x = None) sp \<and> hd sp = None) \<and>
      (\<exists>props counts.
         length props = length fs \<and>
         (\<forall>i<length fs. float_truediv (fs ! i) (float_sum fs) = Inr (props ! i)) \<and>
         length counts = length fs - 1 \<and>
         (\<forall>i<length fs - 1. int_times N (props ! i) = Inr (counts ! i)) \<and>
         int N - sum_list counts \<noteq> 0 \<and>
         lengths = map PyInt (counts @ [int N - sum_list counts]))" .
next
  show "\<forall>counts. sum_list (counts @ [int N - sum_list counts]) = int N" by simp
qed


theorem float_split_counts_witness:
  "split_lengths 4 halves = Inr ([], [PyInt 2, PyInt 2]) \<and>
   (\<exists>counts. [PyInt 2, PyInt 2] = map PyInt (counts @ [int 4 - sum_list counts]) \<and>
       sum_list (counts @ [int 4 - sum_list counts]) = int 4)"
proof -
  have fl: "list_all is_float (present halves)" by (simp add: halves_def)
  have ok: "split_lengths 4 halves = Inr ([], [PyInt 2, PyInt 2])"
    by (simp add: halves_def split_lengths_def float_lengths_def normalized_def
      as_ints_def int_times_def float_of_int_def float_sum_def)
  then have ex: "\<exists>nones. split_lengths 4 halves = Inr (nones, [PyInt 2, PyInt 2])" by (rule exI)
  note T = float_split_counts [OF refl fl, of 4 "[PyInt 2, PyInt 2]"]
  from T [THEN conjunct1] ex
  have "\<not> (list_ex (\<lambda>x. x = None) halves \<and> hd halves = None) \<and>
      (\<exists>props counts.
         length props = length (map the_float (present halves)) \<and>
         (\<forall>i<length (map the_float (present halves)).
             float_truediv (map the_float (present halves) ! i)
               (float_sum (map the_float (present halves))) = Inr (props ! i)) \<and>
         length counts = length (map the_float (present halves)) - 1 \<and>
         (\<forall>i<length (map the_float (present halves)) - 1.
             int_times 4 (props ! i) = Inr (counts ! i)) \<and>
         int 4 - sum_list counts \<noteq> 0 \<and>
         [PyInt 2, PyInt 2] = map PyInt (counts @ [int 4 - sum_list counts]))"
    by (rule iffD1)
  then obtain counts where
    c: "[PyInt 2, PyInt 2] = map PyInt (counts @ [int 4 - sum_list counts])"
    by (elim conjE exE)
  from T [THEN conjunct2] have s: "sum_list (counts @ [int 4 - sum_list counts]) = int 4"
    by (rule spec)
  from c s have "[PyInt 2, PyInt 2] = map PyInt (counts @ [int 4 - sum_list counts]) \<and>
       sum_list (counts @ [int 4 - sum_list counts]) = int 4"
    by (rule conjI)
  then have "\<exists>counts. [PyInt 2, PyInt 2] = map PyInt (counts @ [int 4 - sum_list counts]) \<and>
       sum_list (counts @ [int 4 - sum_list counts]) = int 4"
    by (rule exI)
  with ok show ?thesis by (rule conjI)
qed

text \<open>
  With float entries and \<open>N > 0\<close> the method need not get that far. For \<open>(1.0, 0.0)\<close> and
  four examples the last count is zero, which the guard before \<open>random_split\<close> answers
  with ValueError; for \<open>(0.0, 0.0)\<close> the sum is zero and the division raises.
\<close>

theorem float_split_raises:
  "list_all is_float (present one_zero) \<and>
   split_lengths 4 one_zero = Inl (ValueError last_split_zero) \<and>
   list_all is_float (present zero_zero) \<and>
   split_lengths 4 zero_zero = Inl ZeroDivisionError"
  by (simp add: one_zero_def zero_zero_def split_lengths_def float_lengths_def normalized_def
      as_ints_def int_times_def float_of_int_def float_sum_def)

subsection \<open>When split raises ValueError\<close>

lemma comprehension_Inl_iff:
  "comprehension f xs = Inl e \<longleftrightarrow>
     (\<exists>i<length xs. f (xs ! i) = Inl e \<and> (\<forall>j<i. \<exists>y. f (xs ! j) = Inr y))"
proof (induction xs)
  case Nil
  show ?case by simp
next
  case (Cons x xs)
  show ?case
  proof (cases "f x")
    case (Inl e')
    have "(\<exists>i<length (x # xs). f ((x # xs) ! i) = Inl e \<and> (\<forall>j<i. \<exists>y. f ((x # xs) ! j) = Inr y))
        \<longleftrightarrow> e' = e"
    proof
      assume "\<exists>i<length (x # xs). f ((x # xs) ! i) = Inl e \<and> (\<forall>j<i. \<exists>y. f ((x # xs) ! j) = Inr y)"
      then obtain i where i: "f ((x # xs) ! i) = Inl e" "\<forall>j<i. \<exists>y. f ((x # xs) ! j) = Inr y"
        by blast
      show "e' = e"
      proof (cases i)
        case 0
        then show ?thesis using i(1) Inl by simp
      next
        case (Suc k)
        then have "\<exists>y. f ((x # xs) ! 0) = Inr y" using i(2) by blast
        then show ?thesis using Inl by simp
      qed
    next
      assume "e' = e"
      then have "f ((x # xs) ! 0) = Inl e \<and> (\<forall>j<0. \<exists>y. f ((x # xs) ! j) = Inr y)"
        using Inl by simp
      then show "\<exists>i<length (x # xs). f ((x # xs) ! i) = Inl e \<and>
          (\<forall>j<i. \<exists>y. f ((x # xs) ! j) = Inr y)"
        by (intro exI [of _ 0]) simp
    qed
    then show ?thesis using Inl by simp
  next
    case (Inr y)
    have "(\<exists>i<length (x # xs). f ((x # xs) ! i) = Inl e \<and> (\<forall>j<i. \<exists>y. f ((x # xs) ! j) = Inr y))
        \<longleftrightarrow> (\<exists>i<length xs. f (xs ! i) = Inl e \<and> (\<forall>j<i. \<exists>y. f (xs ! j) = Inr y))"
    proof
      assume "\<exists>i<length (x # xs). f ((x # xs) ! i) = Inl e \<and> (\<forall>j<i. \<exists>y. f ((x # xs) ! j) = Inr y)"
      then obtain i where i: "i < length (x # xs)" "f ((x # xs) ! i) = Inl e"
        "\<forall>j<i. \<exists>y. f ((x # xs) ! j) = Inr y"
        by blast
      then obtain k where k: "i = Suc k" using Inr by (cases i) auto
      have "\<forall>j<k. \<exists>y. f (xs ! j) = Inr y"
      proof (intro allI impI)
        fix j assume "j < k"
        then have "Suc j < i" using k by simp
        then have "\<exists>y. f ((x # xs) ! Suc j) = Inr y" using i(3) by blast
        then show "\<exists>y. f (xs ! j) = Inr y" by simp
      qed
      then show "\<exists>i<length xs. f (xs ! i) = Inl e \<and> (\<forall>j<i. \<exists>y. f (xs ! j) = Inr y)"
        using i(1,2) k by auto
    next
      assume "\<exists>i<length xs. f (xs ! i) = Inl e \<and> (\<forall>j<i. \<exists>y. f (xs ! j) = Inr y)"
      then obtain i where i: "i < length xs" "f (xs ! i) = Inl e"
        "\<forall>j<i. \<exists>y. f (xs ! j) = Inr y"
        by blast
      have "\<forall>j<Suc i. \<exists>y. f ((x # xs) ! j) = Inr y"
      proof (intro allI impI)
        fix j assume "j < Suc i"
        then show "\<exists>y. f ((x # xs) ! j) = Inr y"
          using i(3) Inr by (cases j) auto
      qed
      then have "Suc i < length (x # xs) \<and> f ((x # xs) ! Suc i) = Inl e \<and>
          (\<forall>j<Suc i. \<exists>y. f ((x # xs) ! j) = Inr y)"
        using i(1,2) by simp
      then show "\<exists>i<length (x # xs). f ((x # xs) ! i) = Inl e \<and>
          (\<forall>j<i. \<exists>y. f ((x # xs) ! j) = Inr y)"
        by blast
    qed
    moreover have "comprehension f (x # xs) = Inl e \<longleftrightarrow> comprehension f xs = Inl e"
      using Inr by (cases "comprehension f xs") simp_all
    ultimately show ?thesis using Cons.IH by (simp only:)
  qed
qed

lemma float_truediv_error: "float_truediv x y = Inl e \<Longrightarrow> e = ZeroDivisionError"
  by (cases x; cases y) (auto split: if_splits)

lemma normalized_no_ValueError: "normalized fs \<noteq> Inl (ValueError m)"
proof
  assume "normalized fs = Inl (ValueError m)"
  then obtain i where "float_truediv (fs ! i) (float_sum fs) = Inl (ValueError m)"
    unfolding normalized_def comprehension_Inl_iff by blast
  then show False using float_truediv_error by blast
qed

lemma int_of_float_ValueError:
  "int_of_float x = Inl (ValueError m) \<longleftrightarrow> x = NaN \<and> m = nan_message"
  by (cases x) (auto simp: nan_message_def)

lemma int_times_ValueError:
  "int_times N x = Inl (ValueError m) \<longleftrightarrow>
     (\<exists>n. float_of_int (int N) = Inr n \<and> fmul n x = NaN) \<and> m = nan_message"
proof (cases "float_of_int (int N)")
  case (Inl e)
  then have "e = OverflowError"
    by (auto simp: float_of_int_def split: pyfloat.splits)
  then show ?thesis using Inl by (simp add: int_times_def)
next
  case (Inr n)
  then show ?thesis by (simp add: int_times_def int_of_float_ValueError)
qed

lemma as_ints_ValueError:
  "as_ints N props = Inl (ValueError m) \<longleftrightarrow>
     (\<exists>n i. float_of_int (int N) = Inr n \<and> i < length props - 1 \<and> fmul n (props ! i) = NaN \<and>
        (\<forall>j<i. \<exists>c. int_times N (props ! j) = Inr c)) \<and> m = nan_message"
proof -
  have nth: "butlast props ! j = props ! j" if "j < length props - 1" for j
    using that by (simp add: nth_butlast)
  have "as_ints N props = Inl (ValueError m) \<longleftrightarrow>
      (\<exists>i<length props - 1. int_times N (butlast props ! i) = Inl (ValueError m) \<and>
          (\<forall>j<i. \<exists>c. int_times N (butlast props ! j) = Inr c))"
    by (simp add: as_ints_def comprehension_Inl_iff)
  also have "\<dots> \<longleftrightarrow>
      (\<exists>i<length props - 1. int_times N (props ! i) = Inl (ValueError m) \<and>
          (\<forall>j<i. \<exists>c. int_times N (props ! j) = Inr c))"
    using nth by (metis (no_types, lifting) order.strict_trans)
  also have "\<dots> \<longleftrightarrow>
     (\<exists>n i. float_of_int (int N) = Inr n \<and> i < length props - 1 \<and> fmul n (props ! i) = NaN \<and>
        (\<forall>j<i. \<exists>c. int_times N (props ! j) = Inr c)) \<and> m = nan_message"
    unfolding int_times_ValueError by blast
  finally show ?thesis .
qed

lemma float_lengths_ValueError:
  "float_lengths N fs = Inl (ValueError m) \<longleftrightarrow>
     (\<exists>props. normalized fs = Inr props \<and>
        ((\<exists>counts. as_ints N props = Inr counts \<and> int N - sum_list counts = 0 \<and>
            m = last_split_zero) \<or>
         as_ints N props = Inl (ValueError m)))"
proof (cases "normalized fs")
  case (Inl e)
  then have "e \<noteq> ValueError m" using normalized_no_ValueError [of fs m] by auto
  then show ?thesis using Inl by (simp add: float_lengths_def)
next
  case (Inr props)
  then show ?thesis
    by (cases "as_ints N props") (auto simp: float_lengths_def)
qed

text \<open>
  Claim C10, amended. Before \<open>random_split\<close> is called, \<open>split\<close> raises ValueError in
  exactly three situations: the first element of \<open>splits\<close> is \<open>None\<close>; or all entries that
  are not \<open>None\<close> are floats, the division by their sum and the conversions to int go
  through, and the last count is zero; or all those entries are floats, the division goes
  through and one of the products \<open>N * x\<close> that \<open>int\<close> is applied to is NaN (those before
  it having been converted).
\<close>

theorem split_ValueError_cases:
  "split_lengths N sp = Inl (ValueError m) \<longleftrightarrow>
     (list_ex (\<lambda>x. x = None) sp \<and> hd sp = None \<and> m = train_split_None) \<or>
     (\<not> (list_ex (\<lambda>x. x = None) sp \<and> hd sp = None) \<and> list_all is_float (present sp) \<and>
      (\<exists>props. normalized (map the_float (present sp)) = Inr props \<and>
         ((\<exists>counts. as_ints N props = Inr counts \<and> int N - sum_list counts = 0 \<and>
             m = last_split_zero) \<or>
          ((\<exists>n i. float_of_int (int N) = Inr n \<and> i < length props - 1 \<and>
                fmul n (props ! i) = NaN \<and>
                (\<forall>j<i. \<exists>c. int_times N (props ! j) = Inr c)) \<and>
           m = nan_message))))"
proof (cases "list_ex (\<lambda>x. x = None) sp \<and> hd sp = None")
  case True
  then show ?thesis by (auto simp: split_lengths_def)
next
  case False
  show ?thesis
  proof (cases "list_all is_float (present sp)")
    case fl: True
    have "split_lengths N sp = Inl (ValueError m) \<longleftrightarrow>
        float_lengths N (map the_float (present sp)) = Inl (ValueError m)"
      using False fl by (auto simp: split_lengths_def Let_def split: sum.splits)
    then have "split_lengths N sp = Inl (ValueError m) \<longleftrightarrow>
      (\<exists>props. normalized (map the_float (present sp)) = Inr props \<and>
         ((\<exists>counts. as_ints N props = Inr counts \<and> int N - sum_list counts = 0 \<and>
             m = last_split_zero) \<or>
          ((\<exists>n i. float_of_int (int N) = Inr n \<and> i < length props - 1 \<and>
                fmul n (props ! i) = NaN \<and>
                (\<forall>j<i. \<exists>c. int_times N (props ! j) = Inr c)) \<and>
           m = nan_message)))"
      by (simp only: float_lengths_ValueError as_ints_ValueError)
    then show ?thesis
      using False fl by blast
  next
    case nfl: False
    have "split_lengths N sp \<noteq> Inl (ValueError m)"
      using False nfl by (auto simp: split_lengths_def Let_def)
    then show ?thesis using False nfl by simp
  qed
qed


theorem split_ValueError_cases_witness:
  "split_lengths 4 none_first = Inl (ValueError train_split_None)"
proof -
  have "list_ex (\<lambda>x. x = None) none_first \<and> hd none_first = None"
    by (simp add: none_first_def)
  then show ?thesis
    using split_ValueError_cases [of 4 none_first train_split_None] by blast
qed


text \<open>
  The third situation is missing from the claim: with the entries \<open>(nan, 1.0)\<close> the sum
  and both quotients are NaN, and \<open>int(5 * nan)\<close> raises ValueError although the first
  element is not \<open>None\<close> and no last count is ever computed.
\<close>

theorem split_ValueError_from_NaN:
  "hd nan_first \<noteq> None \<and> list_all is_float (present nan_first) \<and>
   normalized (map the_float (present nan_first)) = Inr [NaN, NaN] \<and>
   as_ints 5 [NaN, NaN] = Inl (ValueError nan_message) \<and>
   split_lengths 5 nan_first = Inl (ValueError nan_message)"
  by (simp add: nan_first_def split_lengths_def float_lengths_def normalized_def
      as_ints_def int_times_def float_of_int_def float_sum_def nan_message_def)


section \<open>DBDataModule.val_dataloader\<close>

lemma has_val_iff:
  "has_val self \<longleftrightarrow>
     \<not> (splits self = None \<or> (\<exists>sp. splits self = Some sp \<and> (length sp < 2 \<or> sp ! 1 = None)))"
  by (auto simp: has_val_def split: option.splits)


lemma split_halves: "split requested 4 halves = Inr [Some (PyInt 2), Some (PyInt 2)]"
  by (simp add: halves_def split_def split_lengths_def float_lengths_def normalized_def
      as_ints_def int_times_def float_of_int_def float_sum_def requested_def)

lemma split_one_zero: "split requested 4 one_zero = Inl (ValueError last_split_zero)"
  by (simp add: one_zero_def split_def split_lengths_def float_lengths_def normalized_def
      as_ints_def int_times_def float_of_int_def float_sum_def requested_def)

lemma setup_halves:
  "module_setup test_env ''fit'' ((fresh_module (Some halves))\<lparr>has_prepared_data := True\<rparr>) =
     Inr ((fresh_module (Some halves))
            \<lparr>train_ds := Some (Subset (PyInt 2)), val_ds := Some (Subset (PyInt 2)),
             has_prepared_data := True, has_setup_fit := True\<rparr>)"
proof -
  have ne: "halves \<noteq> []" by (simp add: halves_def)
  show ?thesis
    by (simp add: module_setup_def fresh_module_def test_env_def split_halves assign_sets_def ne)
qed

text \<open>
  Claim C8, amended. \<open>val_dataloader\<close> returns \<open>None\<close> if and only if \<open>splits\<close> is \<open>None\<close>, or has
  fewer than two entries, or its second entry is \<open>None\<close>. Whatever else it returns is a
  \<open>DataLoader\<close> over \<open>val_ds\<close> built with the stored loader kwargs and the given shuffle
  flag, and it does return that whenever \<open>prepare_data\<close> and \<open>setup\<close>, where they are still
  to be run, do not raise.
\<close>

theorem val_dataloader_cases:
  "((\<exists>self'. val_dataloader env shuffle self = Inr (None, self')) \<longleftrightarrow>
      (splits self = None \<or> (\<exists>sp. splits self = Some sp \<and> (length sp < 2 \<or> sp ! 1 = None)))) \<and>
   (\<forall>r self'. val_dataloader env shuffle self = Inr (r, self') \<longrightarrow> r \<noteq> None \<longrightarrow>
      r = Some (DataLoader (val_ds self')
                 ((loader_kwargs self')(''shuffle'' \<mapsto> PyBool shuffle)))) \<and>
   (\<forall>self1 self2. has_val self \<longrightarrow>
      (if has_prepared_data self then Inr self else prepare_data env self) = Inr self1 \<longrightarrow>
      (if has_setup_fit self1 then Inr self1 else module_setup env ''fit'' self1) = Inr self2 \<longrightarrow>
      val_dataloader env shuffle self =
        Inr (Some (DataLoader (val_ds self2)
                     ((loader_kwargs self2)(''shuffle'' \<mapsto> PyBool shuffle))), self2))"
proof (intro conjI allI impI)
  show "(\<exists>self'. val_dataloader env shuffle self = Inr (None, self')) \<longleftrightarrow>
      (splits self = None \<or> (\<exists>sp. splits self = Some sp \<and> (length sp < 2 \<or> sp ! 1 = None)))"
  proof (cases "has_val self")
    case True
    then have "\<not> (\<exists>self'. val_dataloader env shuffle self = Inr (None, self'))"
      by (auto simp: val_dataloader_def split: sum.splits if_splits)
    then show ?thesis using True by (simp only: has_val_iff)
  next
    case False
    then have "val_dataloader env shuffle self = Inr (None, self)"
      by (simp add: val_dataloader_def)
    then show ?thesis using False by (auto simp only: has_val_iff)
  qed
next
  fix r self'
  assume "val_dataloader env shuffle self = Inr (r, self')" and "r \<noteq> None"
  then show "r = Some (DataLoader (val_ds self')
                 ((loader_kwargs self')(''shuffle'' \<mapsto> PyBool shuffle)))"
    by (auto simp: val_dataloader_def split: sum.splits if_splits)
next
  fix self1 self2
  assume "has_val self"
    and "(if has_prepared_data self then Inr self else prepare_data env self) = Inr self1"
    and "(if has_setup_fit self1 then Inr self1 else module_setup env ''fit'' self1) = Inr self2"
  then show "val_dataloader env shuffle self =
        Inr (Some (DataLoader (val_ds self2)
                     ((loader_kwargs self2)(''shuffle'' \<mapsto> PyBool shuffle))), self2)"
    by (auto simp: val_dataloader_def split: if_splits)
qed


theorem val_dataloader_cases_witness:
  "(\<exists>self'. val_dataloader test_env False (fresh_module None) = Inr (None, self')) \<and>
   val_dataloader test_env True (fresh_module (Some halves)) =
     Inr (Some (DataLoader (Some (Subset (PyInt 2))) [''shuffle'' \<mapsto> PyBool True]),
          (fresh_module (Some halves))
            \<lparr>train_ds := Some (Subset (PyInt 2)), val_ds := Some (Subset (PyInt 2)),
             has_prepared_data := True, has_setup_fit := True\<rparr>)"
proof
  have "splits (fresh_module None) = None" by (simp add: fresh_module_def)
  then show "\<exists>self'. val_dataloader test_env False (fresh_module None) = Inr (None, self')"
    using val_dataloader_cases [of test_env False "fresh_module None"] by blast
next
  let ?m = "fresh_module (Some halves)"
  let ?m1 = "?m\<lparr>has_prepared_data := True\<rparr>"
  let ?m2 = "?m\<lparr>train_ds := Some (Subset (PyInt 2)), val_ds := Some (Subset (PyInt 2)),
             has_prepared_data := True, has_setup_fit := True\<rparr>"
  have hv: "has_val ?m" by (simp add: has_val_def fresh_module_def halves_def)
  have p: "(if has_prepared_data ?m then Inr ?m else prepare_data test_env ?m) = Inr ?m1"
    by (simp add: fresh_module_def prepare_data_def test_env_def)
  have s: "(if has_setup_fit ?m1 then Inr ?m1 else module_setup test_env ''fit'' ?m1) = Inr ?m2"
    using setup_halves by (simp add: fresh_module_def)
  have v: "val_ds ?m2 = Some (Subset (PyInt 2))" and k: "loader_kwargs ?m2 = Map.empty"
    by (simp_all add: fresh_module_def)
  from val_dataloader_cases [of test_env True ?m] hv p s
  have "val_dataloader test_env True ?m =
      Inr (Some (DataLoader (val_ds ?m2) ((loader_kwargs ?m2)(''shuffle'' \<mapsto> PyBool True))), ?m2)"
    by blast
  then show "val_dataloader test_env True ?m =
     Inr (Some (DataLoader (Some (Subset (PyInt 2))) [''shuffle'' \<mapsto> PyBool True]), ?m2)"
    unfolding v k .
qed


text \<open>
  With a validation split the method can also raise: for the proportions \<open>(1.0, 0.0)\<close> and
  four examples \<open>setup\<close> calls \<open>split\<close>, which rejects the last count of zero.
\<close>

theorem val_dataloader_raises:
  "has_val (fresh_module (Some one_zero)) \<and>
   val_dataloader test_env False (fresh_module (Some one_zero)) = Inl (ValueError last_split_zero)"
proof -
  have ne: "one_zero \<noteq> []" by (simp add: one_zero_def)
  have hv: "has_val (fresh_module (Some one_zero))"
    by (simp add: has_val_def fresh_module_def one_zero_def)
  have "val_dataloader test_env False (fresh_module (Some one_zero)) =
      Inl (ValueError last_split_zero)"
    using hv
    by (simp add: val_dataloader_def prepare_data_def module_setup_def fresh_module_def
        test_env_def split_one_zero ne)
  with hv show ?thesis by simp
qed

end
